theory Spec2Isabelle
  imports Main "HOL-Library.Word" "HOL-Library.Char_ord" "HOL-Library.List_Lexorder"
begin

unbundle bit_operations_syntax

section \<open>Values and exceptions\<close>

text \<open>
  A Python \<open>str\<close> is modelled by the list of its UTF-8 bytes, so \<open>s.encode("utf-8")\<close>
  and \<open>read_text(encoding="utf-8")\<close> are the identity, and a code point beyond ASCII is
  the two or three bytes that stand for it in the file.

  The structured values that \<open>details\<close> may hold are JSON values. Python integers are
  unbounded (\<open>int\<close>); of the floating-point numbers only the non-finite ones are
  modelled (\<open>JNonFinite\<close>: \<open>nan\<close>, \<open>inf\<close>, \<open>-inf\<close>), finite floats are left out.
  A \<open>dict\<close> is an association list in insertion order; Python guarantees that its
  keys are distinct (\<open>wf_json\<close>).
\<close>

datatype nonfinite = NaN | PosInf | NegInf

datatype json =
    JNull
  | JBool bool
  | JInt int
  | JNonFinite nonfinite
  | JStr string
  | JList "json list"
  | JObj "(string \<times> json) list"

datatype exn =
    TypeError
  | JSONEncodeError
  | JSONDecodeError
  | ValidationError
  | OperationalError
  | OSError
  | KeyError
  | AttributeError
  | RecursionError
  | NotModelled

fun wf_json :: "json \<Rightarrow> bool" where
  "wf_json (JList xs) = list_all wf_json xs"
| "wf_json (JObj kvs) = (distinct (map fst kvs) \<and> list_all wf_json (map snd kvs))"
| "wf_json v = True"

text \<open>\<open>d.get(k)\<close> and \<open>{k: d[k] for k in d.keys() if k != name}\<close> on a dict.\<close>

definition dict_get :: "(string \<times> json) list \<Rightarrow> string \<Rightarrow> json option" where
  "dict_get d k = map_of d k"

definition dict_without :: "string \<Rightarrow> (string \<times> json) list \<Rightarrow> (string \<times> json) list" where
  "dict_without name d = filter (\<lambda>kv. fst kv \<noteq> name) d"

section \<open>hashlib.sha256\<close>

text \<open>
  The digest of \<open>hashlib\<close>, written out from FIPS 180-4: message padding, the message
  schedule, 64 rounds per 512-bit block over 32-bit words, and the lowercase hexadecimal
  form of the eight state words. Feeding two byte strings to \<open>h.update\<close> one after the
  other digests their concatenation.
\<close>

type_synonym w32 = "32 word"

definition rotr :: "nat \<Rightarrow> w32 \<Rightarrow> w32" where
  "rotr n x = (drop_bit n x) OR (push_bit (32 - n) x)"

text \<open>
  The constants of the standard are given by what defines them: the round constants are
  the first 32 bits of the fractional parts of the cube roots of the first 64 primes, the
  initial state those of the square roots of the first 8 primes.
\<close>

fun iroot :: "nat \<Rightarrow> nat \<Rightarrow> nat \<Rightarrow> nat \<Rightarrow> nat" where
  "iroot k n 0 acc = acc"
| "iroot k n (Suc b) acc =
     iroot k n b (if (acc + 2 ^ b) ^ k \<le> n then acc + 2 ^ b else acc)"

fun primes_from :: "nat \<Rightarrow> nat \<Rightarrow> nat list \<Rightarrow> nat list" where
  "primes_from 0 c ps = ps"
| "primes_from (Suc fuel) c ps =
     primes_from fuel (Suc c) (if list_all (\<lambda>p. c mod p \<noteq> 0) ps then ps @ [c] else ps)"

definition first_primes :: "nat \<Rightarrow> nat list" where
  "first_primes n = take n (primes_from 310 2 [])"

definition sha_K :: "w32 list" where
  "sha_K = map (\<lambda>p. of_nat (iroot 3 (p * 2 ^ 96) 42 0)) (first_primes 64)"

definition sha_H0 :: "w32 list" where
  "sha_H0 = map (\<lambda>p. of_nat (iroot 2 (p * 2 ^ 64) 38 0)) (first_primes 8)"

fun be_bytes :: "nat \<Rightarrow> nat \<Rightarrow> nat list" where
  "be_bytes 0 x = []"
| "be_bytes (Suc n) x = (x div 256 ^ n) mod 256 # be_bytes n x"

definition sha_pad :: "nat list \<Rightarrow> nat list" where
  "sha_pad bs = (let l = length bs
     in bs @ [128] @ replicate ((119 - l mod 64) mod 64) 0 @ be_bytes 8 (8 * l))"

fun chunks :: "nat \<Rightarrow> nat \<Rightarrow> 'a list \<Rightarrow> 'a list list" where
  "chunks 0 k xs = []"
| "chunks (Suc n) k xs = take k xs # chunks n k (drop k xs)"

definition word_of_bytes :: "nat list \<Rightarrow> w32" where
  "word_of_bytes bs = of_nat (foldl (\<lambda>a b. a * 256 + b) 0 bs)"

fun sha_extend :: "nat \<Rightarrow> w32 list \<Rightarrow> w32 list" where
  "sha_extend 0 w = w"
| "sha_extend (Suc n) w =
     (let i = length w;
          a = w ! (i - 15); b = w ! (i - 2);
          s0 = rotr 7 a XOR rotr 18 a XOR drop_bit 3 a;
          s1 = rotr 17 b XOR rotr 19 b XOR drop_bit 10 b
      in sha_extend n (w @ [w ! (i - 16) + s0 + w ! (i - 7) + s1]))"

definition sha_round :: "w32 list \<Rightarrow> w32 \<times> w32 \<Rightarrow> w32 list" where
  "sha_round hs kw =
     (let a = hs ! 0; b = hs ! 1; c = hs ! 2; d = hs ! 3;
          e = hs ! 4; f = hs ! 5; g = hs ! 6; h = hs ! 7;
          S1 = rotr 6 e XOR rotr 11 e XOR rotr 25 e;
          ch = (e AND f) XOR ((NOT e) AND g);
          t1 = h + S1 + ch + fst kw + snd kw;
          S0 = rotr 2 a XOR rotr 13 a XOR rotr 22 a;
          mj = (a AND b) XOR (a AND c) XOR (b AND c);
          t2 = S0 + mj
      in [t1 + t2, a, b, c, d + t1, e, f, g])"

definition sha_block :: "w32 list \<Rightarrow> nat list \<Rightarrow> w32 list" where
  "sha_block hs blk =
     (let w = sha_extend 48 (map word_of_bytes (chunks 16 4 blk))
      in map2 (+) hs (foldl sha_round hs (zip sha_K w)))"

definition sha256_digest :: "nat list \<Rightarrow> w32 list" where
  "sha256_digest bs =
     (let p = sha_pad bs in foldl sha_block sha_H0 (chunks (length p div 64) 64 p))"

definition hex_digit :: "nat \<Rightarrow> char" where
  "hex_digit n = (''0123456789abcdef'') ! (n mod 16)"

definition hex_byte :: "nat \<Rightarrow> string" where
  "hex_byte b = [hex_digit (b div 16), hex_digit b]"

definition hexdigest :: "string \<Rightarrow> string" where
  "hexdigest bs = concat (map (\<lambda>w. concat (map hex_byte (be_bytes 4 (unat w))))
                     (sha256_digest (map of_char bs)))"

section \<open>orjson.dumps with OPT\_SORT\_KEYS\<close>

text \<open>
  The encoder of the \<open>orjson\<close> library, as its documentation describes it: compact
  output without whitespace; dict items sorted by key (byte order of the UTF-8 keys);
  strings copied byte for byte but for the quote, the backslash and the control
  characters below 0x20, which are escaped; integers in decimal, refused outside the
  64-bit range \<open>-2^63 .. 2^64 - 1\<close>; \<open>nan\<close>, \<open>inf\<close> and \<open>-inf\<close> written as \<open>null\<close>.
\<close>

definition digit_char :: "nat \<Rightarrow> char" where
  "digit_char n = (''0123456789'') ! (n mod 10)"

function show_nat :: "nat \<Rightarrow> string" where
  "show_nat n = (if n < 10 then [digit_char n] else show_nat (n div 10) @ [digit_char (n mod 10)])"
  by pat_completeness auto
termination
  by (relation "measure id") auto

declare show_nat.simps [simp del]

definition show_int :: "int \<Rightarrow> string" where
  "show_int i = (if i < 0 then CHR ''-'' # show_nat (nat (- i)) else show_nat (nat i))"

definition escape_char :: "char \<Rightarrow> string" where
  "escape_char c =
     (if c = CHR 0x22 then [CHR 0x5C, CHR 0x22]
      else if c = CHR 0x5C then [CHR 0x5C, CHR 0x5C]
      else if c = CHR 0x08 then [CHR 0x5C, CHR ''b'']
      else if c = CHR 0x0C then [CHR 0x5C, CHR ''f'']
      else if c = CHR 0x0A then [CHR 0x5C, CHR ''n'']
      else if c = CHR 0x0D then [CHR 0x5C, CHR ''r'']
      else if c = CHR 0x09 then [CHR 0x5C, CHR ''t'']
      else if (of_char c :: nat) < 0x20
        then [CHR 0x5C, CHR ''u'', CHR ''0'', CHR ''0''] @ hex_byte (of_char c)
      else [c])"

definition encode_str :: "string \<Rightarrow> string" where
  "encode_str s = CHR 0x22 # concat (map escape_char s) @ [CHR 0x22]"

fun commas :: "string list \<Rightarrow> string" where
  "commas [] = []"
| "commas [x] = x"
| "commas (x # y # ys) = x @ CHR '','' # commas (y # ys)"

definition encode_item :: "string \<times> string \<Rightarrow> string" where
  "encode_item kv = encode_str (fst kv) @ CHR '':'' # snd kv"

fun encode :: "json \<Rightarrow> string" where
  "encode JNull = ''null''"
| "encode (JBool b) = (if b then ''true'' else ''false'')"
| "encode (JInt i) = show_int i"
| "encode (JNonFinite x) = ''null''"
| "encode (JStr s) = encode_str s"
| "encode (JList xs) = CHR ''['' # commas (map encode xs) @ '']''"
| "encode (JObj kvs) =
     CHR ''{'' # commas (map encode_item (sort_key fst (map (\<lambda>kv. (fst kv, encode (snd kv))) kvs)))
       @ ''}''"

fun encodable :: "json \<Rightarrow> bool" where
  "encodable (JInt i) = (- (2 ^ 63) \<le> i \<and> i < 2 ^ 64)"
| "encodable (JList xs) = list_all encodable xs"
| "encodable (JObj kvs) = list_all encodable (map snd kvs)"
| "encodable v = True"

definition dumps :: "json \<Rightarrow> exn + string" where
  "dumps v = (if encodable v then Inr (encode v) else Inl JSONEncodeError)"

section \<open>app/hashing.py\<close>

text \<open>
  \<open>chain_next(prev_hash, payload)\<close>: \<open>None\<close> stands for the empty string, any other
  value that is not a \<open>str\<close> raises \<open>TypeError\<close>; the payload is serialised with sorted
  keys and the digest of \<open>prev_hash\<close> followed by the payload bytes is returned in hex.
\<close>

definition chain_next :: "json \<Rightarrow> json \<Rightarrow> exn + string" where
  "chain_next prev_hash payload =
     (case (case prev_hash of JNull \<Rightarrow> JStr [] | p \<Rightarrow> p) of
        JStr p \<Rightarrow>
          (case dumps payload of
             Inl e \<Rightarrow> Inl e
           | Inr payload_bytes \<Rightarrow> Inr (hexdigest (p @ payload_bytes)))
      | _ \<Rightarrow> Inl TypeError)"

section \<open>app/schemas.py\<close>

record AuditEvent =
  run_id :: string
  step :: string
  status :: string
  ts_iso :: string
  ts_ns :: int
  input_digest :: "string option"
  output_digest :: "string option"
  artifact_paths :: "string list"
  details :: "(string \<times> json) list"
  prev_event_hash :: string
  event_hash :: string

definition json_opt_str :: "string option \<Rightarrow> json" where
  "json_opt_str x = (case x of None \<Rightarrow> JNull | Some s \<Rightarrow> JStr s)"

text \<open>\<open>event.model_dump()\<close>: the fields in their declaration order.\<close>

definition model_dump :: "AuditEvent \<Rightarrow> (string \<times> json) list" where
  "model_dump ev =
     [(''run_id'', JStr (run_id ev)),
      (''step'', JStr (step ev)),
      (''status'', JStr (status ev)),
      (''ts_iso'', JStr (ts_iso ev)),
      (''ts_ns'', JInt (ts_ns ev)),
      (''input_digest'', json_opt_str (input_digest ev)),
      (''output_digest'', json_opt_str (output_digest ev)),
      (''artifact_paths'', JList (map JStr (artifact_paths ev))),
      (''details'', JObj (details ev)),
      (''prev_event_hash'', JStr (prev_event_hash ev)),
      (''event_hash'', JStr (event_hash ev))]"

section \<open>app/storage.py\<close>

text \<open>
  The table \<open>audit\<close>: its rows in the order of their insertion, each with the integer
  primary key the engine gave it (one more than the largest key in use).
\<close>

record audit_row =
  row_id :: nat
  row_run_id :: string
  row_step :: string
  row_status :: string
  row_ts_iso :: string
  row_ts_ns :: int
  row_input_digest :: "string option"
  row_output_digest :: "string option"
  row_prev_event_hash :: string
  row_event_hash :: string
  row_details_json :: string

definition next_rowid :: "audit_row list \<Rightarrow> nat" where
  "next_rowid rows = Suc (fold max (map row_id rows) 0)"

text \<open>
  \<open>append_audit(event)\<close>; \<open>fails\<close> says that the session cannot commit, in which case
  the table is as before.
\<close>

definition append_audit :: "bool \<Rightarrow> audit_row list \<Rightarrow> AuditEvent \<Rightarrow> exn + audit_row list" where
  "append_audit fails rows event =
     (case dumps (JObj (details event)) of
        Inl e \<Rightarrow> Inl e
      | Inr dj \<Rightarrow>
          if fails then Inl OperationalError
          else Inr (rows @
            [\<lparr>row_id = next_rowid rows,
              row_run_id = run_id event,
              row_step = step event,
              row_status = status event,
              row_ts_iso = ts_iso event,
              row_ts_ns = ts_ns event,
              row_input_digest = input_digest event,
              row_output_digest = output_digest event,
              row_prev_event_hash = prev_event_hash event,
              row_event_hash = event_hash event,
              row_details_json = dj\<rparr>]))"

text \<open>
  \<open>get_last_audit_hash(run_id)\<close>: the rows of the run ordered by \<open>id\<close> descending,
  the first one's \<open>event_hash\<close>, or \<open>None\<close> when the run has no row.
\<close>

definition get_last_audit_hash :: "bool \<Rightarrow> audit_row list \<Rightarrow> string \<Rightarrow> exn + string option" where
  "get_last_audit_hash fails rows r =
     (if fails then Inl OperationalError
      else (case rev (sort_key row_id (filter (\<lambda>x. row_run_id x = r) rows)) of
              [] \<Rightarrow> Inr None
            | x # _ \<Rightarrow> Inr (Some (row_event_hash x))))"

section \<open>app/audit.py\<close>

text \<open>
  What one call of \<open>log_event\<close> finds outside the program: the two clock readings, and
  whether the database query, the append to the file and the database insert fail.
\<close>

record env =
  clock_iso :: string
  clock_ns :: int
  db_select_fails :: bool
  file_append_fails :: bool
  db_insert_fails :: bool

text \<open>
  The state: the agent's dict \<open>_last_hash_by_run\<close>, the table \<open>audit\<close>, and the content
  of \<open>audit.jsonl\<close> in the artifacts directory of each run (no entry: no file yet).
\<close>

record world =
  last_hash_by_run :: "string \<rightharpoonup> string"
  audit_table :: "audit_row list"
  audit_files :: "string \<rightharpoonup> string"

text \<open>\<open>AuditTrailAgent()\<close>: a new agent over the same table and files.\<close>

definition new_agent :: "world \<Rightarrow> world" where
  "new_agent w = w\<lparr>last_hash_by_run := Map.empty\<rparr>"

definition resolve_prev_hash :: "env \<Rightarrow> world \<Rightarrow> string \<Rightarrow> exn + string" where
  "resolve_prev_hash e w r =
     (case last_hash_by_run w r of
        Some h \<Rightarrow> Inr h
      | None \<Rightarrow>
          (case get_last_audit_hash (db_select_fails e) (audit_table w) r of
             Inl x \<Rightarrow> Inl x
           | Inr found \<Rightarrow> Inr (case found of None \<Rightarrow> [] | Some h \<Rightarrow> if h = [] then [] else h)))"

text \<open>The dict \<open>event_dict\<close> that \<open>log_event\<close> builds before the hash is known.\<close>

definition event_dict ::
  "env \<Rightarrow> string \<Rightarrow> string \<Rightarrow> string \<Rightarrow> (string \<times> json) list \<Rightarrow> string option \<Rightarrow>
   string option \<Rightarrow> string list \<Rightarrow> string \<Rightarrow> (string \<times> json) list" where
  "event_dict e r stp sts dtl ind outd paths prev_hash =
     [(''run_id'', JStr r),
      (''step'', JStr stp),
      (''status'', JStr sts),
      (''ts_iso'', JStr (clock_iso e)),
      (''ts_ns'', JInt (clock_ns e)),
      (''input_digest'', json_opt_str ind),
      (''output_digest'', json_opt_str outd),
      (''artifact_paths'', JList (map JStr paths)),
      (''details'', JObj dtl),
      (''prev_event_hash'', JStr prev_hash)]"

text \<open>
  \<open>AuditEvent(**{**event_dict, "event_hash": event_hash})\<close>: the arguments have the
  types of the signature; the one constraint left to validate is the literal type of
  \<open>status\<close>.
\<close>

definition make_event ::
  "env \<Rightarrow> string \<Rightarrow> string \<Rightarrow> string \<Rightarrow> (string \<times> json) list \<Rightarrow> string option \<Rightarrow>
   string option \<Rightarrow> string list \<Rightarrow> string \<Rightarrow> string \<Rightarrow> exn + AuditEvent" where
  "make_event e r stp sts dtl ind outd paths prev_hash h =
     (if sts = ''ok'' \<or> sts = ''error''
      then Inr \<lparr>run_id = r, step = stp, status = sts, ts_iso = clock_iso e, ts_ns = clock_ns e,
                input_digest = ind, output_digest = outd, artifact_paths = paths,
                details = dtl, prev_event_hash = prev_hash, event_hash = h\<rparr>
      else Inl ValidationError)"

text \<open>Opening \<open>audit.jsonl\<close> in mode \<open>"ab"\<close> and writing one line.\<close>

definition append_line :: "(string \<rightharpoonup> string) \<Rightarrow> string \<Rightarrow> string \<Rightarrow> (string \<rightharpoonup> string)" where
  "append_line fs r ln =
     fs(r \<mapsto> (case fs r of None \<Rightarrow> [] | Some old \<Rightarrow> old) @ ln @ [CHR 0x0A])"

text \<open>
  \<open>log_event\<close>. The result is the event or the exception raised, and the state the call
  leaves behind in either case.
\<close>

definition log_event ::
  "env \<Rightarrow> world \<Rightarrow> string \<Rightarrow> string \<Rightarrow> string \<Rightarrow> (string \<times> json) list \<Rightarrow> string option \<Rightarrow>
   string option \<Rightarrow> string list option \<Rightarrow> (exn + AuditEvent) \<times> world" where
  "log_event e w r stp sts dtl ind outd artifact_paths_arg =
     (let paths = (case artifact_paths_arg of None \<Rightarrow> [] | Some ps \<Rightarrow> ps) in
      case resolve_prev_hash e w r of
        Inl x \<Rightarrow> (Inl x, w)
      | Inr prev_hash \<Rightarrow>
     (case chain_next (JStr prev_hash) (JObj (event_dict e r stp sts dtl ind outd paths prev_hash)) of
        Inl x \<Rightarrow> (Inl x, w)
      | Inr h \<Rightarrow>
     (case make_event e r stp sts dtl ind outd paths prev_hash h of
        Inl x \<Rightarrow> (Inl x, w)
      | Inr event_full \<Rightarrow>
     (case dumps (JObj (model_dump event_full)) of
        Inl x \<Rightarrow> (Inl x, w)
      | Inr ln \<Rightarrow>
          if file_append_fails e then (Inl OSError, w)
          else
            (let w1 = w\<lparr>audit_files := append_line (audit_files w) r ln\<rparr> in
             case append_audit (db_insert_fails e) (audit_table w1) event_full of
               Inl x \<Rightarrow> (Inl x, w1)
             | Inr rows \<Rightarrow>
                 (Inr event_full,
                  w1\<lparr>audit_table := rows,
                      last_hash_by_run := (last_hash_by_run w1)(r \<mapsto> h)\<rparr>))))))"

section \<open>Sequences of calls\<close>

text \<open>
  The orchestrator calls \<open>log_event\<close> again and again; a call is its arguments and what
  it finds outside the program. \<open>run_calls\<close> makes the calls in order and collects what
  each returned or raised.
\<close>


datatype call = Call (call_env: env) (call_run_id: string) (call_step: string)
  (call_status: string) (call_details: "(string \<times> json) list")
  (call_input_digest: "string option") (call_output_digest: "string option")
  (call_artifact_paths: "string list option")

definition do_call :: "world \<Rightarrow> call \<Rightarrow> (exn + AuditEvent) \<times> world" where
  "do_call w c = log_event (call_env c) w (call_run_id c) (call_step c) (call_status c)
     (call_details c) (call_input_digest c) (call_output_digest c) (call_artifact_paths c)"

fun run_calls :: "world \<Rightarrow> call list \<Rightarrow> (exn + AuditEvent) list \<times> world" where
  "run_calls w [] = ([], w)"
| "run_calls w (c # cs) =
     (case do_call w c of (x, w1) \<Rightarrow>
        (case run_calls w1 cs of (xs, w2) \<Rightarrow> (x # xs, w2)))"



text \<open>The events of a chain are linked: each names the hash of the one before.\<close>

fun linked :: "string \<Rightarrow> AuditEvent list \<Rightarrow> bool" where
  "linked p [] = True"
| "linked p (ev # evs) = (prev_event_hash ev = p \<and> linked (event_hash ev) evs)"


definition env0 :: env where
  "env0 = \<lparr>clock_iso = ''2024-01-01T00:00:00Z'', clock_ns = 1000,
            db_select_fails = False, file_append_fails = False, db_insert_fails = False\<rparr>"

definition world0 :: world where
  "world0 = \<lparr>last_hash_by_run = Map.empty, audit_table = [], audit_files = Map.empty\<rparr>"

definition scenario :: "call list" where
  "scenario =
     [Call env0 ''r1'' ''s1'' ''ok'' [] None None None,
      Call env0 ''r1'' ''s2'' ''ok'' [(''x'', JInt 1)] None None None,
      Call env0 ''r1'' ''s3'' ''error'' [(''msg'', JStr ''boom'')] None None None]"

fun oks :: "(exn + AuditEvent) list \<Rightarrow> AuditEvent list" where
  "oks [] = []"
| "oks (Inr ev # xs) = ev # oks xs"
| "oks (Inl x # xs) = oks xs"


text \<open>
  A call that nothing can make fail: its details are within what the encoder accepts,
  the clock reading is a 64-bit integer, the status is one of the two literals, and
  neither the database nor the file system fails.
\<close>

definition good_call :: "call \<Rightarrow> bool" where
  "good_call c =
     (encodable (JObj (call_details c))
      \<and> - (2 ^ 63) \<le> clock_ns (call_env c) \<and> clock_ns (call_env c) < 2 ^ 64
      \<and> (call_status c = ''ok'' \<or> call_status c = ''error'')
      \<and> \<not> db_select_fails (call_env c)
      \<and> \<not> file_append_fails (call_env c)
      \<and> \<not> db_insert_fails (call_env c))"

text \<open>A table left by an earlier process: two rows of run \<open>r1\<close>, one of run \<open>r2\<close>.\<close>

definition stored_row :: "nat \<Rightarrow> string \<Rightarrow> int \<Rightarrow> string \<Rightarrow> string \<Rightarrow> audit_row" where
  "stored_row i r ns prev h =
     \<lparr>row_id = i, row_run_id = r, row_step = ''s'', row_status = ''ok'',
      row_ts_iso = ''2024-01-01T00:00:00Z'', row_ts_ns = ns,
      row_input_digest = None, row_output_digest = None,
      row_prev_event_hash = prev, row_event_hash = h, row_details_json = ''{}''\<rparr>"

definition stored_world :: world where
  "stored_world =
     \<lparr>last_hash_by_run = Map.empty,
      audit_table = [stored_row 1 ''r1'' 900 [] ''aa'', stored_row 2 ''r1'' 100 ''aa'' ''cc'',
                     stored_row 3 ''r2'' 500 [] ''bb''],
      audit_files = Map.empty\<rparr>"

text \<open>
  What the calls for run \<open>a\<close> returned or raised, picked out of a run of calls for any
  runs; and the part of the state that \<open>log_event\<close> for run \<open>a\<close> reads or writes.
\<close>

definition results_for :: "string \<Rightarrow> world \<Rightarrow> call list \<Rightarrow> (exn + AuditEvent) list" where
  "results_for a w cs =
     map fst (filter (\<lambda>xc. call_run_id (snd xc) = a) (zip (fst (run_calls w cs)) cs))"

definition same_for :: "string \<Rightarrow> world \<Rightarrow> world \<Rightarrow> bool" where
  "same_for a w1 w2 =
     (last_hash_by_run w1 a = last_hash_by_run w2 a
      \<and> get_last_audit_hash False (audit_table w1) a = get_last_audit_hash False (audit_table w2) a
      \<and> audit_files w1 a = audit_files w2 a)"

text \<open>
  The middle of \<open>log_event\<close>, which touches no state: hash, validated event and the
  line for the file.
\<close>

definition prepare_event ::
  "env \<Rightarrow> string \<Rightarrow> string \<Rightarrow> string \<Rightarrow> (string \<times> json) list \<Rightarrow> string option \<Rightarrow>
   string option \<Rightarrow> string list option \<Rightarrow> string \<Rightarrow> exn + (AuditEvent \<times> string)" where
  "prepare_event e r stp sts dtl ind outd ap prev =
     (let paths = (case ap of None \<Rightarrow> [] | Some ps \<Rightarrow> ps) in
      case chain_next (JStr prev) (JObj (event_dict e r stp sts dtl ind outd paths prev)) of
        Inl x \<Rightarrow> Inl x
      | Inr h \<Rightarrow>
          (case make_event e r stp sts dtl ind outd paths prev h of
             Inl x \<Rightarrow> Inl x
           | Inr ev \<Rightarrow>
               (case dumps (JObj (model_dump ev)) of
                  Inl x \<Rightarrow> Inl x
                | Inr ln \<Rightarrow> Inr (ev, ln))))"

text \<open>The content of the file of a run; a file that does not exist yet has none.\<close>

definition file_text :: "world \<Rightarrow> string \<Rightarrow> string" where
  "file_text w r = (case audit_files w r of None \<Rightarrow> [] | Some t \<Rightarrow> t)"

text \<open>
  Two runs interleaved: run \<open>r1\<close> logs details with U+2028 in a string, run \<open>r2\<close> logs
  in between.
\<close>

definition interleaved :: "call list" where
  "interleaved =
     [Call env0 ''r1'' ''s1'' ''ok''
        [(''note'', JStr [CHR ''a'', CHR 0xE2, CHR 0x80, CHR 0xA8, CHR ''b''])] None None None,
      Call env0 ''r2'' ''s1'' ''ok'' [] None None None]"

section \<open>Reading the file back: str.splitlines, str.strip, json.loads\<close>

text \<open>
  \<open>audit_path.read_text(encoding="utf-8").splitlines()\<close>. On text, Python breaks lines
  at line feed, carriage return (with a following line feed as one break), vertical tab,
  form feed, the separators U+001C to U+001E, next line U+0085 and the line and paragraph
  separators U+2028 and U+2029; the last three are two and three bytes in UTF-8. The
  newline translation of text mode turns \<open>\r\n\<close> and \<open>\r\<close> into \<open>\n\<close>, each of them one
  break before and after, so it changes nothing in the lines. The content of the file is
  taken to be well-formed UTF-8.
\<close>

definition line_break_len :: "string \<Rightarrow> nat" where
  "line_break_len s =
     (if take 2 s = [CHR 0x0D, CHR 0x0A] then 2
      else if take 1 s \<in> {[CHR 0x0A], [CHR 0x0B], [CHR 0x0C], [CHR 0x0D],
                            [CHR 0x1C], [CHR 0x1D], [CHR 0x1E]} then 1
      else if take 2 s = [CHR 0xC2, CHR 0x85] then 2
      else if take 3 s = [CHR 0xE2, CHR 0x80, CHR 0xA8] then 3
      else if take 3 s = [CHR 0xE2, CHR 0x80, CHR 0xA9] then 3
      else 0)"

fun splitlines_from :: "string \<Rightarrow> string \<Rightarrow> string list" where
  "splitlines_from cur [] = (if cur = [] then [] else [cur])"
| "splitlines_from cur (c # s) =
     (if line_break_len (c # s) = 0 then splitlines_from (cur @ [c]) s
      else cur # splitlines_from [] (drop (line_break_len (c # s) - 1) s))"

definition splitlines :: "string \<Rightarrow> string list" where
  "splitlines s = splitlines_from [] s"

text \<open>
  \<open>not line.strip()\<close>: the line has nothing but whitespace. The whitespace of Python's
  \<open>str\<close>, in UTF-8: U+0009 to U+000D, U+001C to U+0020, U+0085, U+00A0, U+1680, U+2000
  to U+200A, U+2028, U+2029, U+202F, U+205F and U+3000.
\<close>

definition whitespace_len :: "string \<Rightarrow> nat" where
  "whitespace_len s =
     (if take 1 s \<in> {[CHR 0x09], [CHR 0x0A], [CHR 0x0B], [CHR 0x0C], [CHR 0x0D],
                       [CHR 0x1C], [CHR 0x1D], [CHR 0x1E], [CHR 0x1F], [CHR 0x20]} then 1
      else if take 2 s \<in> {[CHR 0xC2, CHR 0x85], [CHR 0xC2, CHR 0xA0]} then 2
      else if take 3 s = [CHR 0xE1, CHR 0x9A, CHR 0x80] then 3
      else if take 2 s = [CHR 0xE2, CHR 0x80]
              \<and> take 1 (drop 2 s) \<in> {[CHR 0x80], [CHR 0x81], [CHR 0x82], [CHR 0x83], [CHR 0x84],
                     [CHR 0x85], [CHR 0x86], [CHR 0x87], [CHR 0x88], [CHR 0x89], [CHR 0x8A],
                     [CHR 0xA8], [CHR 0xA9], [CHR 0xAF]} then 3
      else if take 3 s = [CHR 0xE2, CHR 0x81, CHR 0x9F] then 3
      else if take 3 s = [CHR 0xE3, CHR 0x80, CHR 0x80] then 3
      else 0)"

fun is_blank :: "string \<Rightarrow> bool" where
  "is_blank [] = True"
| "is_blank (c # s) =
     (whitespace_len (c # s) \<noteq> 0 \<and> is_blank (drop (whitespace_len (c # s) - 1) s))"

text \<open>
  \<open>json.loads\<close> of the standard library, on a \<open>str\<close>, with its defaults: whitespace is
  blank, tab, line feed and carriage return; strings are strict (no raw control
  character); \<open>NaN\<close>, \<open>Infinity\<close> and \<open>-Infinity\<close> are accepted; of a repeated key the
  last value stays, at the place of the first. A number with a fraction or an exponent is
  a finite float, and an escape \<open>\uD800\<close> to \<open>\uDFFF\<close> is (half of) a code point beyond the
  basic plane: for both the model answers \<open>NotModelled\<close>. The recursion is bounded by
  the length of the text, which no nesting can exceed; the interpreter's own limit on the
  depth of recursion is not modelled.
\<close>

definition is_json_ws :: "char \<Rightarrow> bool" where
  "is_json_ws c = (c = CHR 0x20 \<or> c = CHR 0x09 \<or> c = CHR 0x0A \<or> c = CHR 0x0D)"

definition skip_ws :: "string \<Rightarrow> string" where
  "skip_ws s = dropWhile is_json_ws s"

definition is_digit :: "char \<Rightarrow> bool" where
  "is_digit c = (CHR ''0'' \<le> c \<and> c \<le> CHR ''9'')"

definition digit_val :: "char \<Rightarrow> nat" where
  "digit_val c = of_char c - of_char CHR ''0''"

definition nat_of_digits :: "string \<Rightarrow> nat" where
  "nat_of_digits ds = foldl (\<lambda>a c. 10 * a + digit_val c) 0 ds"

definition hex_val :: "char \<Rightarrow> nat option" where
  "hex_val c =
     (if is_digit c then Some (digit_val c)
      else if CHR ''a'' \<le> c \<and> c \<le> CHR ''f'' then Some (of_char c - of_char CHR ''a'' + 10)
      else if CHR ''A'' \<le> c \<and> c \<le> CHR ''F'' then Some (of_char c - of_char CHR ''A'' + 10)
      else None)"

fun hex4 :: "string \<Rightarrow> nat option" where
  "hex4 (a # b # c # d # s) =
     (case (hex_val a, hex_val b, hex_val c, hex_val d) of
        (Some x, Some y, Some z, Some u) \<Rightarrow> Some (((x * 16 + y) * 16 + z) * 16 + u)
      | _ \<Rightarrow> None)"
| "hex4 s = None"

text \<open>The UTF-8 bytes of a code point of the basic plane.\<close>

definition utf8 :: "nat \<Rightarrow> string" where
  "utf8 n =
     (if n < 0x80 then [char_of n]
      else if n < 0x800 then [char_of (0xC0 + n div 64), char_of (0x80 + n mod 64)]
      else [char_of (0xE0 + n div 4096), char_of (0x80 + (n div 64) mod 64),
            char_of (0x80 + n mod 64)])"

definition unescape :: "char \<Rightarrow> char option" where
  "unescape c =
     (if c = CHR 0x22 then Some (CHR 0x22)
      else if c = CHR 0x5C then Some (CHR 0x5C)
      else if c = CHR ''/'' then Some (CHR ''/'')
      else if c = CHR ''b'' then Some (CHR 0x08)
      else if c = CHR ''f'' then Some (CHR 0x0C)
      else if c = CHR ''n'' then Some (CHR 0x0A)
      else if c = CHR ''r'' then Some (CHR 0x0D)
      else if c = CHR ''t'' then Some (CHR 0x09)
      else None)"

text \<open>The text of a string after its opening quote: the string and what follows it.\<close>

fun scanstring :: "string \<Rightarrow> exn + (string \<times> string)" where
  "scanstring [] = Inl JSONDecodeError"
| "scanstring (c # s) =
     (if c = CHR 0x22 then Inr ([], s)
      else if c = CHR 0x5C then
        (case s of
           [] \<Rightarrow> Inl JSONDecodeError
         | e # s' \<Rightarrow>
             if e = CHR ''u'' then
               (case hex4 s' of
                  None \<Rightarrow> Inl JSONDecodeError
                | Some n \<Rightarrow>
                    if 0xD800 \<le> n \<and> n < 0xE000 then Inl NotModelled
                    else (case scanstring (drop 4 s') of
                            Inl x \<Rightarrow> Inl x
                          | Inr (t, r) \<Rightarrow> Inr (utf8 n @ t, r)))
             else
               (case unescape e of
                  None \<Rightarrow> Inl JSONDecodeError
                | Some ch \<Rightarrow>
                    (case scanstring s' of
                       Inl x \<Rightarrow> Inl x
                     | Inr (t, r) \<Rightarrow> Inr (ch # t, r))))
      else if (of_char c :: nat) < 0x20 then Inl JSONDecodeError
      else (case scanstring s of
              Inl x \<Rightarrow> Inl x
            | Inr (t, r) \<Rightarrow> Inr (c # t, r)))"

text \<open>
  A number, by the pattern \<open>(-?(?:0|[1-9][0-9]*))(\.[0-9]+)?([eE][-+]?[0-9]+)?\<close>: the
  integer part and what follows it, or \<open>None\<close> where the pattern does not match.
\<close>

definition int_part :: "string \<Rightarrow> (string \<times> string) option" where
  "int_part s =
     (case s of
        [] \<Rightarrow> None
      | c # r \<Rightarrow>
          if c = CHR ''0'' then Some ([c], r)
          else if is_digit c then Some (takeWhile is_digit s, dropWhile is_digit s)
          else None)"

definition has_fraction :: "string \<Rightarrow> bool" where
  "has_fraction s = (case s of c # d # r \<Rightarrow> c = CHR ''.'' \<and> is_digit d | _ \<Rightarrow> False)"

definition has_exponent :: "string \<Rightarrow> bool" where
  "has_exponent s =
     (case s of
        c # d # r \<Rightarrow>
          (c = CHR ''e'' \<or> c = CHR ''E'')
          \<and> (is_digit d \<or> ((d = CHR ''+'' \<or> d = CHR ''-'') \<and> (case r of x # _ \<Rightarrow> is_digit x | [] \<Rightarrow> False)))
      | _ \<Rightarrow> False)"

definition match_number :: "string \<Rightarrow> exn + (json \<times> string)" where
  "match_number s =
     (let neg = (take 1 s = ''-'');
          body = (if neg then drop 1 s else s)
      in case int_part body of
           None \<Rightarrow> Inl JSONDecodeError
         | Some (ds, r) \<Rightarrow>
             if has_fraction r \<or> has_exponent r then Inl NotModelled
             else Inr (JInt (if neg then - int (nat_of_digits ds) else int (nat_of_digits ds)), r))"

text \<open>\<open>d[k] = v\<close> on a dict, and the dict built from the pairs of an object in order.\<close>

fun dict_set :: "(string \<times> json) list \<Rightarrow> string \<Rightarrow> json \<Rightarrow> (string \<times> json) list" where
  "dict_set [] k v = [(k, v)]"
| "dict_set (p # d) k v = (if fst p = k then (k, v) # d else p # dict_set d k v)"

definition dict_of_pairs :: "(string \<times> json) list \<Rightarrow> (string \<times> json) list" where
  "dict_of_pairs ps = foldl (\<lambda>d p. dict_set d (fst p) (snd p)) [] ps"

definition starts_with :: "string \<Rightarrow> string \<Rightarrow> bool" where
  "starts_with p s = (take (length p) s = p)"

fun parse_value :: "nat \<Rightarrow> string \<Rightarrow> exn + (json \<times> string)"
  and parse_elements :: "nat \<Rightarrow> string \<Rightarrow> exn + (json list \<times> string)"
  and parse_members :: "nat \<Rightarrow> string \<Rightarrow> exn + ((string \<times> json) list \<times> string)" where
  "parse_value 0 s = Inl RecursionError"
| "parse_value (Suc n) s =
     (if starts_with [CHR 0x22] s then
        (case scanstring (drop 1 s) of
           Inl x \<Rightarrow> Inl x
         | Inr (t, r) \<Rightarrow> Inr (JStr t, r))
      else if starts_with ''{'' s then
        (if starts_with ''}'' (skip_ws (drop 1 s)) then Inr (JObj [], drop 1 (skip_ws (drop 1 s)))
         else (case parse_members n (skip_ws (drop 1 s)) of
                 Inl x \<Rightarrow> Inl x
               | Inr (ps, r) \<Rightarrow> Inr (JObj (dict_of_pairs ps), r)))
      else if starts_with ''['' s then
        (if starts_with '']'' (skip_ws (drop 1 s)) then Inr (JList [], drop 1 (skip_ws (drop 1 s)))
         else (case parse_elements n (skip_ws (drop 1 s)) of
                 Inl x \<Rightarrow> Inl x
               | Inr (vs, r) \<Rightarrow> Inr (JList vs, r)))
      else if starts_with ''null'' s then Inr (JNull, drop 4 s)
      else if starts_with ''true'' s then Inr (JBool True, drop 4 s)
      else if starts_with ''false'' s then Inr (JBool False, drop 5 s)
      else if starts_with ''NaN'' s then Inr (JNonFinite NaN, drop 3 s)
      else if starts_with ''Infinity'' s then Inr (JNonFinite PosInf, drop 8 s)
      else if starts_with ''-Infinity'' s then Inr (JNonFinite NegInf, drop 9 s)
      else match_number s)"
| "parse_elements 0 s = Inl RecursionError"
| "parse_elements (Suc n) s =
     (case parse_value n s of
        Inl x \<Rightarrow> Inl x
      | Inr (v, r) \<Rightarrow>
          if starts_with '']'' (skip_ws r) then Inr ([v], drop 1 (skip_ws r))
          else if starts_with '','' (skip_ws r) then
            (case parse_elements n (skip_ws (drop 1 (skip_ws r))) of
               Inl x \<Rightarrow> Inl x
             | Inr (vs, r') \<Rightarrow> Inr (v # vs, r'))
          else Inl JSONDecodeError)"
| "parse_members 0 s = Inl RecursionError"
| "parse_members (Suc n) s =
     (if \<not> starts_with [CHR 0x22] s then Inl JSONDecodeError
      else
        (case scanstring (drop 1 s) of
           Inl x \<Rightarrow> Inl x
         | Inr (k, r) \<Rightarrow>
             if \<not> starts_with '':'' (skip_ws r) then Inl JSONDecodeError
             else
               (case parse_value n (skip_ws (drop 1 (skip_ws r))) of
                  Inl x \<Rightarrow> Inl x
                | Inr (v, r1) \<Rightarrow>
                    if starts_with ''}'' (skip_ws r1) then Inr ([(k, v)], drop 1 (skip_ws r1))
                    else if starts_with '','' (skip_ws r1) then
                      (case parse_members n (skip_ws (drop 1 (skip_ws r1))) of
                         Inl x \<Rightarrow> Inl x
                       | Inr (ps, r') \<Rightarrow> Inr ((k, v) # ps, r'))
                    else Inl JSONDecodeError)))"

definition loads :: "string \<Rightarrow> exn + json" where
  "loads s =
     (if starts_with [CHR 0xEF, CHR 0xBB, CHR 0xBF] s then Inl JSONDecodeError
      else (case parse_value (Suc (length s)) (skip_ws s) of
              Inl x \<Rightarrow> Inl x
            | Inr (v, r) \<Rightarrow> if skip_ws r = [] then Inr v else Inl JSONDecodeError))"

section \<open>app/cli\_verify\_audit.py\<close>

definition dict_get_default :: "(string \<times> json) list \<Rightarrow> string \<Rightarrow> json \<Rightarrow> json" where
  "dict_get_default d k dflt = (case dict_get d k of None \<Rightarrow> dflt | Some v \<Rightarrow> v)"

record verify_result =
  res_run_id :: json
  res_events :: nat
  res_valid :: bool
  res_break_index :: "int option"

text \<open>
  The loop of \<open>verify_chain\<close> over the numbered lines; it carries \<open>prev\<close> and the events
  accepted so far, and ends with them and \<open>break_index\<close> (\<open>-1\<close> when it ran through), or
  with the exception that json.loads, \<open>ev.get\<close> on a value that is no dict, or
  \<open>chain_next\<close> raised. \<open>prev\<close> is the empty string or an \<open>event_hash\<close> that was found equal
  to a digest, so it is always a \<open>str\<close>, and Python's \<open>!=\<close> against it is plain
  inequality.
\<close>

fun verify_loop ::
  "(nat \<times> string) list \<Rightarrow> json \<Rightarrow> (string \<times> json) list list \<Rightarrow>
   exn + ((string \<times> json) list list \<times> int)" where
  "verify_loop [] prev events = Inr (events, - 1)"
| "verify_loop ((idx, ln) # rest) prev events =
     (if is_blank ln then verify_loop rest prev events
      else
        (case loads ln of
           Inl x \<Rightarrow> Inl x
         | Inr (JObj ev) \<Rightarrow>
             if dict_get_default ev ''prev_event_hash'' (JStr []) \<noteq> prev
             then Inr (events, int idx)
             else
               (case chain_next (dict_get_default ev ''prev_event_hash'' (JStr []))
                       (JObj (dict_without ''event_hash'' ev)) of
                  Inl x \<Rightarrow> Inl x
                | Inr recomputed \<Rightarrow>
                    if JStr recomputed \<noteq> dict_get_default ev ''event_hash'' JNull
                    then Inr (events, int idx)
                    else verify_loop rest (dict_get_default ev ''event_hash'' JNull)
                           (events @ [ev]))
         | Inr _ \<Rightarrow> Inl AttributeError))"

definition verify_chain :: "string \<Rightarrow> exn + verify_result" where
  "verify_chain text =
     (case verify_loop (enumerate 0 (splitlines text)) (JStr []) [] of
        Inl x \<Rightarrow> Inl x
      | Inr (events, break_index) \<Rightarrow>
          (case (case events of
                   [] \<Rightarrow> Inr JNull
                 | ev # _ \<Rightarrow> (case dict_get ev ''run_id'' of
                                None \<Rightarrow> Inl KeyError
                              | Some v \<Rightarrow> Inr v)) of
             Inl x \<Rightarrow> Inl x
           | Inr rid \<Rightarrow>
               Inr \<lparr>res_run_id = rid,
                    res_events = length events,
                    res_valid = (break_index = - 1),
                    res_break_index = (if break_index = - 1 then None else Some break_index)\<rparr>))"

text \<open>
  What the specification says of a chain, on the objects read from the lines: an event is
  consistent with the hash before it when its \<open>prev_event_hash\<close> is that hash and its
  \<open>event_hash\<close> is the digest of that hash and the encoding of its other fields. An
  absent \<open>prev_event_hash\<close> reads as the empty string and an absent \<open>event_hash\<close> as
  \<open>None\<close>, as \<open>ev.get\<close> reads them. The hash expected at position \<open>i\<close> is the empty string
  for the first event and the \<open>event_hash\<close> of the event before for the others.
\<close>

definition stored_prev :: "(string \<times> json) list \<Rightarrow> json" where
  "stored_prev ev = dict_get_default ev ''prev_event_hash'' (JStr [])"

definition stored_hash :: "(string \<times> json) list \<Rightarrow> json" where
  "stored_hash ev = dict_get_default ev ''event_hash'' JNull"

definition consistent :: "json \<Rightarrow> (string \<times> json) list \<Rightarrow> bool" where
  "consistent prev ev =
     (stored_prev ev = prev
      \<and> (case prev of
            JStr p \<Rightarrow> stored_hash ev
                        = JStr (hexdigest (p @ encode (JObj (dict_without ''event_hash'' ev))))
          | _ \<Rightarrow> False))"



fun chain_ok :: "json \<Rightarrow> (string \<times> json) list list \<Rightarrow> bool" where
  "chain_ok prev [] = True"
| "chain_ok prev (ev # evs) = (consistent prev ev \<and> chain_ok (stored_hash ev) evs)"

text \<open>What may follow a value in the text of an encoded value: nothing, or a comma or a closing bracket.\<close>

definition delim :: "string \<Rightarrow> bool" where
  "delim r = (r = [] \<or> hd r = CHR '','' \<or> hd r = CHR '']'' \<or> hd r = CHR ''}'')"

text \<open>
  The value that comes back from the text of a value: the items of every dict sorted by
  key, the non-finite floats turned into \<open>None\<close>, everything else as it was. And the
  depth of recursion that reading the text of a value takes at most.
\<close>

fun canon :: "json \<Rightarrow> json" where
  "canon (JNonFinite x) = JNull"
| "canon (JList xs) = JList (map canon xs)"
| "canon (JObj kvs) = JObj (sort_key fst (map (\<lambda>kv. (fst kv, canon (snd kv))) kvs))"
| "canon v = v"

fun fuel_of :: "json \<Rightarrow> nat" where
  "fuel_of (JList xs) = Suc (sum_list (map (\<lambda>x. Suc (fuel_of x)) xs))"
| "fuel_of (JObj kvs) = Suc (sum_list (map (\<lambda>kv. Suc (fuel_of (snd kv))) kvs))"
| "fuel_of v = 1"

text \<open>A value without non-finite floats, and one in which every dict has its keys in order.\<close>

fun finite_only :: "json \<Rightarrow> bool" where
  "finite_only (JNonFinite x) = False"
| "finite_only (JList xs) = list_all finite_only xs"
| "finite_only (JObj kvs) = list_all finite_only (map snd kvs)"
| "finite_only v = True"

fun keys_sorted :: "json \<Rightarrow> bool" where
  "keys_sorted (JList xs) = list_all keys_sorted xs"
| "keys_sorted (JObj kvs) = (sorted (map fst kvs) \<and> list_all keys_sorted (map snd kvs))"
| "keys_sorted v = True"

text \<open>
  A sufficient condition for a text to have no line boundary in it: none of its bytes is
  one of the one-byte boundaries or the first byte of a longer one (0xC2 opens U+0080 to
  U+00BF and 0xE2 opens U+2000 to U+2FFF). The strings of a value have no such first byte.
\<close>

definition safe_char :: "char \<Rightarrow> bool" where
  "safe_char c = (c \<notin> {CHR 0x0A, CHR 0x0B, CHR 0x0C, CHR 0x0D, CHR 0x1C, CHR 0x1D, CHR 0x1E,
                        CHR 0xC2, CHR 0xE2})"

definition str_ok :: "string \<Rightarrow> bool" where
  "str_ok s = list_all (\<lambda>c. c \<noteq> CHR 0xC2 \<and> c \<noteq> CHR 0xE2) s"

fun breakfree :: "json \<Rightarrow> bool" where
  "breakfree (JStr s) = str_ok s"
| "breakfree (JList xs) = list_all breakfree xs"
| "breakfree (JObj kvs) = list_all (\<lambda>kv. str_ok (fst kv) \<and> breakfree (snd kv)) kvs"
| "breakfree v = True"

definition is_hex :: "char \<Rightarrow> bool" where
  "is_hex c = (c \<in> set ''0123456789abcdef'')"

text \<open>
  The line \<open>log_event\<close> writes for an event (without its line feed), and the dict that
  \<open>json.loads\<close> makes of it.
\<close>

definition event_line :: "AuditEvent \<Rightarrow> string" where
  "event_line ev = encode (JObj (model_dump ev))"

definition parsed_event :: "AuditEvent \<Rightarrow> (string \<times> json) list" where
  "parsed_event ev = sort_key fst (map (\<lambda>kv. (fst kv, canon (snd kv))) (model_dump ev))"

text \<open>
  A call whose strings hold no byte 0xC2 or 0xE2 (so no line boundary of more than one
  byte), and whose details are a proper dict.
\<close>

definition safe_call :: "call \<Rightarrow> bool" where
  "safe_call c =
     (str_ok (call_run_id c) \<and> str_ok (call_step c) \<and> str_ok (clock_iso (call_env c))
      \<and> breakfree (json_opt_str (call_input_digest c))
      \<and> breakfree (json_opt_str (call_output_digest c))
      \<and> list_all str_ok (case call_artifact_paths c of None \<Rightarrow> [] | Some ps \<Rightarrow> ps)
      \<and> breakfree (JObj (call_details c))
      \<and> wf_json (JObj (call_details c)))"

text \<open>
  The first line that \<open>splitlines\<close> makes of the file when the details of the first
  event are \<open>{"note": "a\u2028b"}\<close>: the line written, cut at the separator.
\<close>

definition cut_line :: string where
  "cut_line = CHR ''{'' # CHR 0x22 # ''artifact_paths'' @ CHR 0x22 # '':[],'' @ CHR 0x22 # ''details''
       @ CHR 0x22 # '':{'' @ CHR 0x22 # ''note'' @ CHR 0x22 # '':'' @ CHR 0x22 # ''a''"




section \<open>Properties of the ledger\<close>

lemma log_event_err:
  assumes "log_event e w r stp sts dtl ind outd ap = (Inl x, w')"
  shows "last_hash_by_run w' = last_hash_by_run w \<and> audit_table w' = audit_table w"
  using assms
  unfolding log_event_def Let_def
  by (auto split: sum.splits if_splits)


lemma log_event_ok:
  assumes "log_event e w r stp sts dtl ind outd ap = (Inr ev, w')"
  shows "\<exists>prev ln rows.
      resolve_prev_hash e w r = Inr prev
    \<and> chain_next (JStr prev)
         (JObj (event_dict e r stp sts dtl ind outd (case ap of None \<Rightarrow> [] | Some ps \<Rightarrow> ps) prev))
        = Inr (event_hash ev)
    \<and> make_event e r stp sts dtl ind outd (case ap of None \<Rightarrow> [] | Some ps \<Rightarrow> ps) prev (event_hash ev)
        = Inr ev
    \<and> dumps (JObj (model_dump ev)) = Inr ln
    \<and> \<not> file_append_fails e
    \<and> append_audit (db_insert_fails e) (audit_table w) ev = Inr rows
    \<and> last_hash_by_run w' = (last_hash_by_run w)(r \<mapsto> event_hash ev)
    \<and> audit_table w' = rows
    \<and> audit_files w' = append_line (audit_files w) r ln"
proof -
  let ?paths = "case ap of None \<Rightarrow> [] | Some ps \<Rightarrow> ps"
  from assms obtain prev where p: "resolve_prev_hash e w r = Inr prev"
    unfolding log_event_def Let_def by (auto split: sum.splits)
  from assms p obtain h where
    h: "chain_next (JStr prev) (JObj (event_dict e r stp sts dtl ind outd ?paths prev)) = Inr h"
    unfolding log_event_def Let_def by (auto split: sum.splits)
  from assms p h obtain ev0 where
    m: "make_event e r stp sts dtl ind outd ?paths prev h = Inr ev0"
    unfolding log_event_def Let_def by (auto split: sum.splits)
  from assms p h m obtain ln where l: "dumps (JObj (model_dump ev0)) = Inr ln"
    unfolding log_event_def Let_def by (auto split: sum.splits)
  from assms p h m l have f: "\<not> file_append_fails e"
    unfolding log_event_def Let_def by (auto split: sum.splits if_splits)
  from assms p h m l f obtain rows where
    a: "append_audit (db_insert_fails e) (audit_table w) ev0 = Inr rows"
    unfolding log_event_def Let_def by (auto split: sum.splits if_splits)
  from assms p h m l f a have ev: "ev = ev0"
    and w': "w' = w\<lparr>audit_files := append_line (audit_files w) r ln, audit_table := rows,
                      last_hash_by_run := (last_hash_by_run w)(r \<mapsto> h)\<rparr>"
    unfolding log_event_def Let_def by simp_all
  from m have eh: "event_hash ev0 = h"
    unfolding make_event_def by (auto split: if_splits)
  show ?thesis
    using p h m l f a ev w' eh by simp
qed


lemma log_event_prev:
  assumes "log_event e w r stp sts dtl ind outd ap = (Inr ev, w')"
  shows "resolve_prev_hash e w r = Inr (prev_event_hash ev)"
proof -
  from log_event_ok [OF assms] obtain prev where
    p: "resolve_prev_hash e w r = Inr prev" and
    m: "make_event e r stp sts dtl ind outd (case ap of None \<Rightarrow> [] | Some ps \<Rightarrow> ps) prev (event_hash ev) = Inr ev"
    by blast
  from m have "ev = \<lparr>run_id = r, step = stp, status = sts, ts_iso = clock_iso e, ts_ns = clock_ns e,
                input_digest = ind, output_digest = outd,
                artifact_paths = (case ap of None \<Rightarrow> [] | Some ps \<Rightarrow> ps),
                details = dtl, prev_event_hash = prev, event_hash = event_hash ev\<rparr>"
    unfolding make_event_def by (simp split: if_splits)
  then have "prev_event_hash ev = prev"
    by (metis AuditEvent.select_convs(10))
  with p show ?thesis by simp
qed

lemma log_event_cache:
  assumes "log_event e w r stp sts dtl ind outd ap = (Inr ev, w')"
  shows "last_hash_by_run w' r = Some (event_hash ev)"
  using log_event_ok [OF assms] by auto

lemma resolve_cached:
  "last_hash_by_run w r = Some h \<Longrightarrow> resolve_prev_hash e w r = Inr h"
  by (simp add: resolve_prev_hash_def)

lemma resolve_cold_no_rows:
  assumes "last_hash_by_run w r = None"
    and "\<forall>x \<in> set (audit_table w). row_run_id x \<noteq> r"
    and "resolve_prev_hash e w r = Inr p"
  shows "p = []"
proof -
  from assms(2) have "filter (\<lambda>x. row_run_id x = r) (audit_table w) = []"
    by (simp add: filter_empty_conv)
  with assms(1,3) show ?thesis
    by (auto simp: resolve_prev_hash_def get_last_audit_hash_def split: if_splits)
qed

lemma linked_nth:
  "linked p evs \<Longrightarrow> i < length evs \<Longrightarrow>
   prev_event_hash (evs ! i) = (if i = 0 then p else event_hash (evs ! (i - 1)))"
proof (induction evs arbitrary: p i)
  case Nil
  then show ?case by simp
next
  case (Cons ev evs)
  show ?case
  proof (cases i)
    case 0
    with Cons.prems show ?thesis by simp
  next
    case (Suc j)
    with Cons.prems have "j < length evs" and "linked (event_hash ev) evs" by simp_all
    from Cons.IH [OF this(2) this(1)] Suc show ?thesis
      by (cases j) simp_all
  qed
qed

lemma run_calls_warm:
  assumes "\<forall>c \<in> set cs. call_run_id c = r"
    and "last_hash_by_run w r = Some h"
    and "fst (run_calls w cs) = map Inr evs"
  shows "linked h evs"
  using assms
proof (induction cs arbitrary: w h evs)
  case Nil
  then show ?case by simp
next
  case (Cons c cs)
  obtain x w1 where d: "do_call w c = (x, w1)" by (cases "do_call w c")
  obtain xs w2 where rc: "run_calls w1 cs = (xs, w2)" by (cases "run_calls w1 cs")
  from Cons.prems(3) d rc obtain ev evs' where
    evs: "evs = ev # evs'" and x: "x = Inr ev" and xs: "xs = map Inr evs'"
    by (cases evs) auto
  from Cons.prems(1) have r: "call_run_id c = r" by simp
  from d x r have le: "log_event (call_env c) w r (call_step c) (call_status c)
     (call_details c) (call_input_digest c) (call_output_digest c) (call_artifact_paths c) = (Inr ev, w1)"
    by (simp add: do_call_def)
  from log_event_prev [OF le] resolve_cached [OF Cons.prems(2)]
  have p: "prev_event_hash ev = h" by simp
  from log_event_cache [OF le] have c1: "last_hash_by_run w1 r = Some (event_hash ev)" .
  from Cons.prems(1) have all: "\<forall>c \<in> set cs. call_run_id c = r" by simp
  from rc xs have "fst (run_calls w1 cs) = map Inr evs'" by simp
  from Cons.IH [OF all c1 this] p evs show ?case by simp
qed

lemma last_of_run:
  assumes "sorted_wrt (<) (map row_id rows)"
    and "filter (\<lambda>x. row_run_id x = r) rows \<noteq> []"
  shows "get_last_audit_hash False rows r
       = Inr (Some (row_event_hash (last (filter (\<lambda>x. row_run_id x = r) rows))))"
proof -
  let ?xs = "filter (\<lambda>x. row_run_id x = r) rows"
  from assms(1) have "sorted_wrt (<) (map row_id ?xs)"
    by (induction rows) (auto simp: sorted_wrt_map)
  then have "sorted (map row_id ?xs)"
    by (simp add: sorted_wrt_map) (metis (mono_tags, lifting) less_imp_le sorted_wrt_mono_rel)
  then have s: "sort_key row_id ?xs = ?xs" by (rule sort_key_id_if_sorted)
  from assms(2) obtain ys y where "?xs = ys @ [y]"
    by (cases ?xs rule: rev_cases) auto
  with s show ?thesis by (simp add: get_last_audit_hash_def)
qed

lemma fold_max_ge: "(a::nat) \<le> fold max zs a"
proof (induction zs arbitrary: a)
  case Nil
  then show ?case by simp
next
  case (Cons z zs)
  have "a \<le> max z a" by simp
  also have "\<dots> \<le> fold max zs (max z a)" by (rule Cons.IH)
  finally show ?case by simp
qed

lemma fold_max_mem: "(x::nat) \<in> set zs \<Longrightarrow> x \<le> fold max zs a"
proof (induction zs arbitrary: a)
  case Nil
  then show ?case by simp
next
  case (Cons z zs)
  show ?case
  proof (cases "x = z")
    case True
    have "z \<le> max z a" by simp
    also have "\<dots> \<le> fold max zs (max z a)" by (rule fold_max_ge)
    finally show ?thesis using True by simp
  next
    case False
    with Cons.prems have "x \<in> set zs" by simp
    from Cons.IH [OF this] show ?thesis by simp
  qed
qed

lemma next_rowid_greater: "x \<in> set rows \<Longrightarrow> row_id x < next_rowid rows"
proof -
  assume "x \<in> set rows"
  then have "row_id x \<in> set (map row_id rows)" by simp
  from fold_max_mem [OF this] show ?thesis
    by (simp add: next_rowid_def less_Suc_eq_le)
qed

lemma append_audit_ids:
  assumes "sorted_wrt (<) (map row_id rows)"
    and "append_audit fails rows ev = Inr rows'"
  shows "sorted_wrt (<) (map row_id rows')"
  using assms
  by (auto simp: append_audit_def sorted_wrt_append next_rowid_greater split: sum.splits if_splits)

lemma resolve_total:
  "\<not> db_select_fails e \<Longrightarrow> \<exists>p. resolve_prev_hash e w r = Inr p"
  by (simp add: resolve_prev_hash_def get_last_audit_hash_def split: option.splits list.splits)

lemma good_call_succeeds:
  assumes "good_call c"
  shows "\<exists>ev w'. do_call w c = (Inr ev, w')"
proof -
  from assms have "\<not> db_select_fails (call_env c)" by (simp add: good_call_def)
  from resolve_total [OF this] obtain p where
    p: "resolve_prev_hash (call_env c) w (call_run_id c) = Inr p" by blast
  from assms p show ?thesis
    by (auto simp: good_call_def do_call_def log_event_def chain_next_def dumps_def
        make_event_def append_audit_def event_dict_def model_dump_def json_opt_str_def
        Let_def list_all_iff split: option.splits)
qed

lemma run_calls_length: "length (fst (run_calls w cs)) = length cs"
proof (induction cs arbitrary: w)
  case Nil
  then show ?case by simp
next
  case (Cons c cs)
  obtain x w1 where d: "do_call w c = (x, w1)" by (cases "do_call w c")
  obtain xs w2 where rc: "run_calls w1 cs = (xs, w2)" by (cases "run_calls w1 cs")
  from Cons.IH [of w1] rc have "length xs = length cs" by simp
  with d rc show ?case by simp
qed

lemma good_calls_succeed:
  "list_all good_call cs \<Longrightarrow>
   fst (run_calls w cs) = map Inr (oks (fst (run_calls w cs)))"
proof (induction cs arbitrary: w)
  case Nil
  then show ?case by simp
next
  case (Cons c cs)
  from Cons.prems have g: "good_call c" and gs: "list_all good_call cs" by simp_all
  from good_call_succeeds [OF g] obtain ev w1 where d: "do_call w c = (Inr ev, w1)" by blast
  obtain xs w2 where rc: "run_calls w1 cs = (xs, w2)" by (cases "run_calls w1 cs")
  from Cons.IH [OF gs, of w1] rc have "xs = map Inr (oks xs)" by simp
  with d rc show ?case by simp
qed

lemma oks_length: "xs = map Inr (oks xs) \<Longrightarrow> length (oks xs) = length xs"
  by (metis length_map)

lemma scenario_good: "list_all good_call scenario"
  by (simp add: scenario_def good_call_def env0_def)


lemma log_event_hash:
  assumes "log_event e w r stp sts dtl ind outd ap = (Inr ev, w')"
  shows "resolve_prev_hash e w r = Inr (prev_event_hash ev)
       \<and> event_hash ev
          = hexdigest (prev_event_hash ev
                       @ encode (JObj (dict_without ''event_hash'' (model_dump ev))))"
proof -
  let ?paths = "case ap of None \<Rightarrow> [] | Some ps \<Rightarrow> ps"
  from log_event_ok [OF assms] obtain prev where
    p: "resolve_prev_hash e w r = Inr prev" and
    c: "chain_next (JStr prev) (JObj (event_dict e r stp sts dtl ind outd ?paths prev))
        = Inr (event_hash ev)" and
    m: "make_event e r stp sts dtl ind outd ?paths prev (event_hash ev) = Inr ev"
    by blast
  from m have ev: "ev = \<lparr>run_id = r, step = stp, status = sts, ts_iso = clock_iso e, ts_ns = clock_ns e,
                input_digest = ind, output_digest = outd, artifact_paths = ?paths,
                details = dtl, prev_event_hash = prev, event_hash = event_hash ev\<rparr>"
    unfolding make_event_def by (simp split: if_splits)
  have pe: "prev_event_hash ev = prev"
    by (metis ev AuditEvent.select_convs(10))
  have d: "dict_without ''event_hash'' (model_dump ev)
         = event_dict e r stp sts dtl ind outd ?paths prev"
    by (subst ev) (simp add: dict_without_def model_dump_def event_dict_def)
  from c have "event_hash ev
      = hexdigest (prev @ encode (JObj (event_dict e r stp sts dtl ind outd ?paths prev)))"
    by (auto simp: chain_next_def dumps_def split: sum.splits if_splits)
  with p pe d show ?thesis by simp
qed

lemmas run_defs = do_call_def log_event_def resolve_prev_hash_def get_last_audit_hash_def
  chain_next_def dumps_def make_event_def append_audit_def event_dict_def model_dump_def
  json_opt_str_def next_rowid_def append_line_def

subsection \<open>Runs do not see each other\<close>

lemma insort_key_snoc:
  "f y < f x \<Longrightarrow> insort_key f y (zs @ [x]) = insort_key f y zs @ [x]"
  for f :: "'a \<Rightarrow> nat"
  by (induction zs) auto

lemma foldr_insort_snoc:
  "\<forall>y \<in> set ys. f y < f x \<Longrightarrow>
   foldr (insort_key f) ys [x] = foldr (insort_key f) ys [] @ [x]"
  for f :: "'a \<Rightarrow> nat"
proof (induction ys)
  case Nil
  then show ?case by simp
next
  case (Cons y ys)
  then have "f y < f x" and IH: "foldr (insort_key f) ys [x] = foldr (insort_key f) ys [] @ [x]"
    by simp_all
  then show ?case by (simp add: insort_key_snoc)
qed

lemma sort_key_snoc:
  "\<forall>y \<in> set ys. f y < f x \<Longrightarrow> sort_key f (ys @ [x]) = sort_key f ys @ [x]"
  for f :: "'a \<Rightarrow> nat"
  by (simp add: sort_key_def foldr_insort_snoc)

lemma get_last_append:
  assumes "row_run_id x = a" and "\<forall>y \<in> set rows. row_id y < row_id x"
  shows "get_last_audit_hash False (rows @ [x]) a = Inr (Some (row_event_hash x))"
proof -
  let ?ys = "filter (\<lambda>y. row_run_id y = a) rows"
  from assms(2) have "\<forall>y \<in> set ?ys. row_id y < row_id x" by simp
  from sort_key_snoc [OF this] assms(1) show ?thesis
    by (simp add: get_last_audit_hash_def)
qed

lemma get_last_append_other:
  "row_run_id x \<noteq> a \<Longrightarrow>
   get_last_audit_hash f (rows @ [x]) a = get_last_audit_hash f rows a"
  by (simp add: get_last_audit_hash_def)

lemma append_audit_last:
  assumes "append_audit f rows ev = Inr rows'"
  shows "get_last_audit_hash False rows' (run_id ev) = Inr (Some (event_hash ev))"
proof -
  from assms obtain dj where
    r: "rows' = rows @ [\<lparr>row_id = next_rowid rows,
              row_run_id = run_id ev, row_step = step ev, row_status = status ev,
              row_ts_iso = ts_iso ev, row_ts_ns = ts_ns ev,
              row_input_digest = input_digest ev, row_output_digest = output_digest ev,
              row_prev_event_hash = prev_event_hash ev, row_event_hash = event_hash ev,
              row_details_json = dj\<rparr>]"
    by (auto simp: append_audit_def split: sum.splits if_splits)
  show ?thesis
    unfolding r by (subst get_last_append) (simp_all add: next_rowid_greater)
qed

lemma append_audit_other:
  assumes "append_audit f rows ev = Inr rows'" and "run_id ev \<noteq> a"
  shows "get_last_audit_hash g rows' a = get_last_audit_hash g rows a"
  using assms
  by (auto simp: append_audit_def get_last_append_other split: sum.splits if_splits)

lemma append_audit_indep:
  "(append_audit f rows1 ev = Inl x) = (append_audit f rows2 ev = Inl x)"
  by (auto simp: append_audit_def split: sum.splits if_splits)


lemma log_event_staged:
  "log_event e w r stp sts dtl ind outd ap =
     (case resolve_prev_hash e w r of
        Inl x \<Rightarrow> (Inl x, w)
      | Inr prev \<Rightarrow>
          (case prepare_event e r stp sts dtl ind outd ap prev of
             Inl x \<Rightarrow> (Inl x, w)
           | Inr (ev, ln) \<Rightarrow>
               if file_append_fails e then (Inl OSError, w)
               else
                 (case append_audit (db_insert_fails e) (audit_table w) ev of
                    Inl x \<Rightarrow> (Inl x, w\<lparr>audit_files := append_line (audit_files w) r ln\<rparr>)
                  | Inr rows \<Rightarrow>
                      (Inr ev,
                       w\<lparr>audit_files := append_line (audit_files w) r ln,
                         audit_table := rows,
                         last_hash_by_run := (last_hash_by_run w)(r \<mapsto> event_hash ev)\<rparr>))))"
proof -
  have eh: "\<And>paths prev h ev. make_event e r stp sts dtl ind outd paths prev h = Inr ev
      \<Longrightarrow> event_hash ev = h"
    unfolding make_event_def by (auto split: if_splits)
  show ?thesis
    unfolding log_event_def prepare_event_def Let_def
    by (auto split: sum.splits simp: eh)
qed

lemma prepare_event_run_id:
  "prepare_event e r stp sts dtl ind outd ap prev = Inr (ev, ln) \<Longrightarrow> run_id ev = r"
  unfolding prepare_event_def make_event_def Let_def
  by (auto split: sum.splits if_splits)

lemma resolve_same:
  assumes "same_for a w1 w2"
  shows "resolve_prev_hash e w1 a = resolve_prev_hash e w2 a"
proof (cases "db_select_fails e")
  case True
  then have "\<And>rows. get_last_audit_hash (db_select_fails e) rows a = Inl OperationalError"
    by (simp add: get_last_audit_hash_def)
  with assms show ?thesis
    by (simp add: same_for_def resolve_prev_hash_def split: option.splits)
next
  case False
  with assms show ?thesis
    by (simp add: same_for_def resolve_prev_hash_def split: option.splits)
qed

lemma log_event_same:
  assumes "same_for a w1 w2"
  shows "fst (log_event e w1 a stp sts dtl ind outd ap) = fst (log_event e w2 a stp sts dtl ind outd ap)
       \<and> same_for a (snd (log_event e w1 a stp sts dtl ind outd ap))
                     (snd (log_event e w2 a stp sts dtl ind outd ap))"
proof (cases "resolve_prev_hash e w1 a")
  case (Inl x)
  with resolve_same [OF assms, of e] have "resolve_prev_hash e w2 a = Inl x" by simp
  with Inl assms show ?thesis
    by (simp add: log_event_staged)
next
  case (Inr prev)
  with resolve_same [OF assms, of e] have "resolve_prev_hash e w2 a = Inr prev" by simp
  note rp = Inr this
  show ?thesis
  proof (cases "prepare_event e a stp sts dtl ind outd ap prev")
    case (Inl x)
    with rp assms show ?thesis by (simp add: log_event_staged)
  next
    case (Inr p)
    obtain ev ln where p: "p = (ev, ln)" by (cases p)
    note pe = Inr [unfolded p]
    from prepare_event_run_id [OF pe] have rid: "run_id ev = a" .
    show ?thesis
    proof (cases "file_append_fails e")
      case True
      with rp pe assms show ?thesis by (simp add: log_event_staged)
    next
      case False
      from assms have fa: "audit_files w1 a = audit_files w2 a" by (simp add: same_for_def)
      show ?thesis
      proof (cases "append_audit (db_insert_fails e) (audit_table w1) ev")
        case (Inl x)
        with append_audit_indep [of "db_insert_fails e" "audit_table w1" ev x "audit_table w2"]
        have "append_audit (db_insert_fails e) (audit_table w2) ev = Inl x" by simp
        with Inl rp pe False assms fa show ?thesis
          by (simp add: log_event_staged same_for_def append_line_def)
      next
        case (Inr rows1)
        have "\<exists>rows2. append_audit (db_insert_fails e) (audit_table w2) ev = Inr rows2"
        proof (cases "append_audit (db_insert_fails e) (audit_table w2) ev")
          case (Inl x)
          with append_audit_indep [of "db_insert_fails e" "audit_table w1" ev x "audit_table w2"] Inr
          show ?thesis by simp
        next
          case (Inr rows2)
          then show ?thesis by blast
        qed
        then obtain rows2 where
          r2: "append_audit (db_insert_fails e) (audit_table w2) ev = Inr rows2" by blast
        from append_audit_last [OF Inr] append_audit_last [OF r2] rid
        have "get_last_audit_hash False rows1 a = get_last_audit_hash False rows2 a" by simp
        with Inr r2 rp pe False fa show ?thesis
          by (simp add: log_event_staged same_for_def append_line_def)
      qed
    qed
  qed
qed

lemma log_event_other:
  assumes "r \<noteq> a"
  shows "same_for a (snd (log_event e w r stp sts dtl ind outd ap)) w"
proof (cases "resolve_prev_hash e w r")
  case (Inl x)
  then show ?thesis by (simp add: log_event_staged same_for_def)
next
  case (Inr prev)
  note rp = Inr
  show ?thesis
  proof (cases "prepare_event e r stp sts dtl ind outd ap prev")
    case (Inl x)
    with rp show ?thesis by (simp add: log_event_staged same_for_def)
  next
    case (Inr p)
    obtain ev ln where p: "p = (ev, ln)" by (cases p)
    note pe = Inr [unfolded p]
    from prepare_event_run_id [OF pe] assms have rid: "run_id ev \<noteq> a" by simp
    show ?thesis
    proof (cases "file_append_fails e")
      case True
      with rp pe show ?thesis by (simp add: log_event_staged same_for_def)
    next
      case False
      show ?thesis
      proof (cases "append_audit (db_insert_fails e) (audit_table w) ev")
        case (Inl x)
        with rp pe False assms show ?thesis
          by (simp add: log_event_staged same_for_def append_line_def)
      next
        case (Inr rows)
        from append_audit_other [OF Inr rid]
        have "get_last_audit_hash False rows a = get_last_audit_hash False (audit_table w) a" .
        with Inr rp pe False assms show ?thesis
          by (simp add: log_event_staged same_for_def append_line_def)
      qed
    qed
  qed
qed

lemma same_for_trans: "same_for a w1 w2 \<Longrightarrow> same_for a w2 w3 \<Longrightarrow> same_for a w1 w3"
  by (simp add: same_for_def)

lemma run_calls_same:
  assumes "same_for a w1 w2"
  shows "results_for a w1 cs = fst (run_calls w2 (filter (\<lambda>c. call_run_id c = a) cs))
       \<and> same_for a (snd (run_calls w1 cs))
                     (snd (run_calls w2 (filter (\<lambda>c. call_run_id c = a) cs)))"
  using assms
proof (induction cs arbitrary: w1 w2)
  case Nil
  then show ?case by (simp add: results_for_def)
next
  case (Cons c cs)
  obtain x v1 where d1: "do_call w1 c = (x, v1)" by (cases "do_call w1 c")
  obtain xs v1' where r1: "run_calls v1 cs = (xs, v1')" by (cases "run_calls v1 cs")
  show ?case
  proof (cases "call_run_id c = a")
    case True
    obtain y v2 where d2: "do_call w2 c = (y, v2)" by (cases "do_call w2 c")
    obtain ys v2' where r2: "run_calls v2 (filter (\<lambda>c. call_run_id c = a) cs) = (ys, v2')"
      by (cases "run_calls v2 (filter (\<lambda>c. call_run_id c = a) cs)")
    from log_event_same [OF Cons.prems, of "call_env c" "call_step c" "call_status c"
        "call_details c" "call_input_digest c" "call_output_digest c" "call_artifact_paths c"]
      True d1 d2
    have xy: "x = y" and s: "same_for a v1 v2" by (simp_all add: do_call_def)
    from Cons.IH [OF s] r1 r2 have "results_for a v1 cs = ys" and "same_for a v1' v2'"
      by simp_all
    with True d1 d2 r1 r2 xy show ?thesis
      by (simp add: results_for_def)
  next
    case False
    from log_event_other [of "call_run_id c" a "call_env c" w1 "call_step c" "call_status c"
        "call_details c" "call_input_digest c" "call_output_digest c" "call_artifact_paths c"]
      False d1
    have "same_for a v1 w1" by (simp add: do_call_def)
    from same_for_trans [OF this Cons.prems] have s: "same_for a v1 w2" .
    from Cons.IH [OF s] r1 False d1 show ?thesis
      by (simp add: results_for_def)
  qed
qed

subsection \<open>The loop of the verifier\<close>


lemma encodable_without:
  "encodable (JObj ev) \<Longrightarrow> encodable (JObj (dict_without k ev))"
  by (auto simp: dict_without_def list_all_iff)

lemma verify_loop_consistent:
  assumes "\<not> is_blank ln" and "loads ln = Inr (JObj ev)" and "encodable (JObj ev)"
    and "consistent (JStr p) ev"
  shows "verify_loop ((idx, ln) # rest) (JStr p) acc
       = verify_loop rest (stored_hash ev) (acc @ [ev])"
proof -
  from assms(4) have sp: "dict_get_default ev ''prev_event_hash'' (JStr []) = JStr p"
    and sh: "dict_get_default ev ''event_hash'' JNull
             = JStr (hexdigest (p @ encode (JObj (dict_without ''event_hash'' ev))))"
    by (simp_all add: consistent_def stored_prev_def stored_hash_def)
  from encodable_without [OF assms(3)]
  have cn: "chain_next (JStr p) (JObj (dict_without ''event_hash'' ev))
          = Inr (hexdigest (p @ encode (JObj (dict_without ''event_hash'' ev))))"
    by (simp add: chain_next_def dumps_def)
  show ?thesis
    using assms(1,2) by (simp add: sp sh cn stored_hash_def)
qed



lemma consistent_hash_str:
  "consistent prev ev \<Longrightarrow> \<exists>h. stored_hash ev = JStr h"
  by (auto simp: consistent_def split: json.splits)

lemma verify_loop_chain_ok:
  assumes "list_all2 (\<lambda>p ev. \<not> is_blank (snd p) \<and> loads (snd p) = Inr (JObj ev)) nl evs"
    and "\<forall>ev \<in> set evs. encodable (JObj ev)"
    and "chain_ok (JStr p) evs"
  shows "verify_loop (nl @ rest) (JStr p) acc
       = verify_loop rest (if evs = [] then JStr p else stored_hash (last evs)) (acc @ evs)"
  using assms
proof (induction nl evs arbitrary: p acc rule: list_all2_induct)
  case Nil
  then show ?case by simp
next
  case (Cons q nl ev evs)
  obtain idx ln where q: "q = (idx, ln)" by (cases q)
  from Cons.hyps(1) q have nb: "\<not> is_blank ln" and ld: "loads ln = Inr (JObj ev)" by simp_all
  from Cons.prems have en: "encodable (JObj ev)" and ens: "\<forall>ev \<in> set evs. encodable (JObj ev)"
    and c: "consistent (JStr p) ev" and cs: "chain_ok (stored_hash ev) evs" by simp_all
  from consistent_hash_str [OF c] obtain h where h: "stored_hash ev = JStr h" by blast
  have "verify_loop ((q # nl) @ rest) (JStr p) acc
      = verify_loop (nl @ rest) (JStr h) (acc @ [ev])"
    using verify_loop_consistent [OF nb ld en c, of idx "nl @ rest" acc] q h by simp
  also have "\<dots> = verify_loop rest (if evs = [] then JStr h else stored_hash (last evs))
                       ((acc @ [ev]) @ evs)"
    using Cons.IH [OF ens, of h "acc @ [ev]"] cs h by simp
  finally show ?case using h by simp
qed






subsection \<open>json.loads reads back what orjson.dumps wrote\<close>

lemma below_ten:
  "(k::nat) < 10 \<Longrightarrow> k = 0 \<or> k = 1 \<or> k = 2 \<or> k = 3 \<or> k = 4 \<or> k = 5 \<or> k = 6 \<or> k = 7 \<or> k = 8 \<or> k = 9"
  by arith

lemma digit_char_is_digit: "is_digit (digit_char n)"
proof -
  have "n mod 10 < 10" by simp
  from below_ten [OF this] show ?thesis
    by (elim disjE) (simp_all add: digit_char_def is_digit_def less_eq_char_def)
qed

lemma digit_val_digit_char: "digit_val (digit_char n) = n mod 10"
proof -
  have "n mod 10 < 10" by simp
  from below_ten [OF this] show ?thesis
    by (elim disjE) (simp_all add: digit_char_def digit_val_def)
qed

lemma digit_char_zero: "n < 10 \<Longrightarrow> (digit_char n = CHR ''0'') = (n = 0)"
proof -
  assume "n < 10"
  from below_ten [OF this] show ?thesis
    by (elim disjE) (simp_all add: digit_char_def)
qed

lemma show_nat_digits: "list_all is_digit (show_nat n)"
proof (induction n rule: show_nat.induct)
  case (1 n)
  then show ?case
    by (subst show_nat.simps) (simp add: digit_char_is_digit)
qed

lemma show_nat_nonempty: "show_nat n \<noteq> []"
  by (subst show_nat.simps) simp

lemma show_nat_hd: "hd (show_nat n) = CHR ''0'' \<longleftrightarrow> n = 0"
proof (induction n rule: show_nat.induct)
  case (1 n)
  show ?case
  proof (cases "n < 10")
    case True
    then show ?thesis by (subst show_nat.simps) (simp add: digit_char_zero)
  next
    case False
    then have "n div 10 \<noteq> 0" by simp
    with 1 False have "hd (show_nat (n div 10)) \<noteq> CHR ''0''" by simp
    with False show ?thesis
      by (subst show_nat.simps) (simp add: show_nat_nonempty)
  qed
qed

lemma nat_of_digits_snoc: "nat_of_digits (ds @ [c]) = 10 * nat_of_digits ds + digit_val c"
  by (simp add: nat_of_digits_def)

lemma nat_of_digits_show_nat: "nat_of_digits (show_nat n) = n"
proof (induction n rule: show_nat.induct)
  case (1 n)
  show ?case
  proof (cases "n < 10")
    case True
    then show ?thesis
      by (subst show_nat.simps) (simp add: nat_of_digits_def digit_val_digit_char)
  next
    case False
    with 1 have "nat_of_digits (show_nat (n div 10)) = n div 10" by simp
    with False show ?thesis
      by (subst show_nat.simps) (simp add: nat_of_digits_snoc digit_val_digit_char)
  qed
qed

lemma delim_not_digit: "delim r \<Longrightarrow> r = [] \<or> \<not> is_digit (hd r)"
  by (auto simp: delim_def is_digit_def less_eq_char_def)

lemma delim_no_fraction: "delim r \<Longrightarrow> \<not> has_fraction r"
  by (auto simp: delim_def has_fraction_def split: list.splits)

lemma delim_no_exponent: "delim r \<Longrightarrow> \<not> has_exponent r"
  by (auto simp: delim_def has_exponent_def split: list.splits)

lemma takeWhile_no_digit:
  "r = [] \<or> \<not> is_digit (hd r) \<Longrightarrow> takeWhile is_digit r = [] \<and> dropWhile is_digit r = r"
  by (cases r) auto

lemma takeWhile_digits:
  "list_all is_digit ds \<Longrightarrow> r = [] \<or> \<not> is_digit (hd r) \<Longrightarrow>
   takeWhile is_digit (ds @ r) = ds \<and> dropWhile is_digit (ds @ r) = r"
  by (induction ds) (simp_all add: takeWhile_no_digit)

lemma int_part_show_nat:
  assumes "r = [] \<or> \<not> is_digit (hd r)"
  shows "int_part (show_nat n @ r) = Some (show_nat n, r)"
proof -
  obtain c cs where s: "show_nat n = c # cs"
    using show_nat_nonempty [of n] by (cases "show_nat n") auto
  from show_nat_digits [of n] s have dc: "is_digit c" by simp
  show ?thesis
  proof (cases "n = 0")
    case True
    have "show_nat 0 = ''0''" by (subst show_nat.simps) (simp add: digit_char_def)
    with True show ?thesis by (simp add: int_part_def)
  next
    case False
    with show_nat_hd [of n] s have "c \<noteq> CHR ''0''" by simp
    with dc s takeWhile_digits [OF show_nat_digits assms, of n] show ?thesis
      by (simp add: int_part_def)
  qed
qed

lemma match_number_show_int:
  assumes "delim r"
  shows "match_number (show_int i @ r) = Inr (JInt i, r)"
proof -
  note ip = int_part_show_nat [OF delim_not_digit [OF assms]]
  have s: "\<And>n. \<exists>c cs. show_nat n = c # cs \<and> is_digit c"
  proof -
    fix n
    obtain c cs where "show_nat n = c # cs"
      using show_nat_nonempty [of n] by (cases "show_nat n") auto
    with show_nat_digits [of n] show "\<exists>c cs. show_nat n = c # cs \<and> is_digit c" by simp
  qed
  show ?thesis
  proof (cases "i < 0")
    case True
    then show ?thesis
      using ip [of "nat (- i)"] delim_no_fraction [OF assms] delim_no_exponent [OF assms]
      by (simp add: match_number_def show_int_def nat_of_digits_show_nat)
  next
    case False
    from s [of "nat i"] obtain c cs where c: "show_nat (nat i) = c # cs" and d: "is_digit c"
      by blast
    from d have "c \<noteq> CHR ''-''" by (auto simp: is_digit_def less_eq_char_def)
    moreover have "nat_of_digits (c # cs) = nat i"
      using nat_of_digits_show_nat [of "nat i"] c by simp
    ultimately show ?thesis
      using False c ip [of "nat i"] delim_no_fraction [OF assms] delim_no_exponent [OF assms]
      by (simp add: match_number_def show_int_def)
  qed
qed

lemma below_sixteen:
  "(k::nat) < 16 \<Longrightarrow> k = 0 \<or> k = 1 \<or> k = 2 \<or> k = 3 \<or> k = 4 \<or> k = 5 \<or> k = 6 \<or> k = 7
     \<or> k = 8 \<or> k = 9 \<or> k = 10 \<or> k = 11 \<or> k = 12 \<or> k = 13 \<or> k = 14 \<or> k = 15"
  by arith

lemma hex_val_hex_digit: "hex_val (hex_digit k) = Some (k mod 16)"
proof -
  have "k mod 16 < 16" by simp
  from below_sixteen [OF this] show ?thesis
    by (elim disjE)
       (simp_all add: hex_digit_def hex_val_def is_digit_def digit_val_def less_eq_char_def)
qed

lemma hex4_hex_byte:
  "n < 256 \<Longrightarrow> hex4 (CHR ''0'' # CHR ''0'' # hex_byte n @ r) = Some n"
proof -
  assume n: "n < 256"
  have z: "hex_val CHR ''0'' = Some 0"
    by (simp add: hex_val_def is_digit_def digit_val_def less_eq_char_def)
  from n have "n div 16 < 16" by simp
  then have "(n div 16) mod 16 = n div 16" by simp
  then show ?thesis
    by (simp add: hex_byte_def hex_val_hex_digit z)
qed

lemma scanstring_u00:
  assumes "(of_char c :: nat) < 0x20" and "scanstring t = Inr (u, r)"
  shows "scanstring (CHR 0x5C # CHR ''u'' # CHR ''0'' # CHR ''0'' # hex_byte (of_char c) @ t)
       = Inr (c # u, r)"
proof -
  from assms have lt: "(of_char c :: nat) < 256" by simp
  have u: "utf8 (of_char c) = [c]" using assms by (simp add: utf8_def)
  have d: "drop 2 (hex_byte (of_char c)) = []" and l: "length (hex_byte (of_char c)) = 2"
    by (simp_all add: hex_byte_def)
  show ?thesis
    using assms by (simp add: hex4_hex_byte [OF lt] u d l)
qed

lemma scanstring_escape_char:
  assumes "scanstring t = Inr (u, r)"
  shows "scanstring (escape_char c @ t) = Inr (c # u, r)"
proof (cases "c \<in> {CHR 0x22, CHR 0x5C, CHR 0x08, CHR 0x0C, CHR 0x0A, CHR 0x0D, CHR 0x09}")
  case True
  with assms show ?thesis
    by (auto simp: escape_char_def unescape_def)
next
  case False
  show ?thesis
  proof (cases "(of_char c :: nat) < 0x20")
    case True
    with False scanstring_u00 [OF True assms] show ?thesis
      by (simp add: escape_char_def del: scanstring.simps)
  next
    case nc: False
    with False assms show ?thesis
      by (simp add: escape_char_def)
  qed
qed

lemma scanstring_escaped:
  "scanstring (concat (map escape_char s) @ CHR 0x22 # r) = Inr (s, r)"
proof (induction s)
  case Nil
  then show ?case by simp
next
  case (Cons c s)
  from scanstring_escape_char [OF Cons.IH, of c] show ?case by simp
qed

lemma insort_key_map_item:
  "insort_key fst (fst x, f (snd x)) (map (\<lambda>kv. (fst kv, f (snd kv))) ys)
   = map (\<lambda>kv. (fst kv, f (snd kv))) (insort_key fst x ys)"
  by (induction ys) simp_all

lemma sort_key_map_item:
  "sort_key fst (map (\<lambda>kv. (fst kv, f (snd kv))) kvs)
   = map (\<lambda>kv. (fst kv, f (snd kv))) (sort_key fst kvs)"
  by (induction kvs) (simp_all add: insort_key_map_item)

lemma encode_obj_sorted:
  "encode (JObj kvs)
   = CHR ''{'' # commas (map (\<lambda>kv. encode_str (fst kv) @ CHR '':'' # encode (snd kv))
                            (sort_key fst kvs)) @ ''}''"
  by (simp add: sort_key_map_item encode_item_def comp_def)

lemma canon_obj_sorted:
  "canon (JObj kvs) = JObj (map (\<lambda>kv. (fst kv, canon (snd kv))) (sort_key fst kvs))"
  by (simp add: sort_key_map_item)

lemma show_int_head:
  "\<exists>c cs. show_int i = c # cs
     \<and> (is_digit c \<or> (c = CHR ''-'' \<and> (\<exists>d ds. cs = d # ds \<and> is_digit d)))"
proof -
  have s: "\<And>n. \<exists>c cs. show_nat n = c # cs \<and> is_digit c"
  proof -
    fix n
    obtain c cs where "show_nat n = c # cs"
      using show_nat_nonempty [of n] by (cases "show_nat n") auto
    with show_nat_digits [of n] show "\<exists>c cs. show_nat n = c # cs \<and> is_digit c" by simp
  qed
  show ?thesis
  proof (cases "i < 0")
    case True
    with s [of "nat (- i)"] show ?thesis by (auto simp: show_int_def)
  next
    case False
    with s [of "nat i"] show ?thesis by (auto simp: show_int_def)
  qed
qed


lemma is_digit_cases:
  "is_digit c \<Longrightarrow> c \<notin> {CHR 0x22, CHR ''{'', CHR ''['', CHR ''n'', CHR ''t'', CHR ''f'',
     CHR ''N'', CHR ''I'', CHR ''-'', CHR 0x20, CHR 0x09, CHR 0x0A, CHR 0x0D}"
  by (auto simp: is_digit_def less_eq_char_def)



lemma starts_with_simps:
  "starts_with [] s = True"
  "starts_with (p # ps) [] = False"
  "starts_with (p # ps) (c # s) = (c = p \<and> starts_with ps s)"
  by (auto simp: starts_with_def)

lemma parse_value_number:
  assumes "c \<notin> {CHR 0x22, CHR ''{'', CHR ''['', CHR ''n'', CHR ''t'', CHR ''f'', CHR ''N'', CHR ''I''}"
    and "\<not> starts_with ''-Infinity'' (c # s)"
  shows "parse_value (Suc n) (c # s) = match_number (c # s)"
proof -
  from assms(1) have ne: "c \<noteq> CHR 0x22" "c \<noteq> CHR ''{''" "c \<noteq> CHR ''[''" "c \<noteq> CHR ''n''"
    "c \<noteq> CHR ''t''" "c \<noteq> CHR ''f''" "c \<noteq> CHR ''N''" "c \<noteq> CHR ''I''" by simp_all
  from assms(2) have ni: "(c = CHR ''-'' \<and> starts_with ''Infinity'' s) = False"
    by (simp add: starts_with_simps)
  show ?thesis
    by (simp add: starts_with_simps(3) [where s = s and c = c] ne ni
        del: starts_with_simps split del: if_split)
qed

lemma parse_value_int:
  assumes "delim r"
  shows "parse_value (Suc n) (show_int i @ r) = Inr (JInt i, r)"
proof -
  from show_int_head [of i] obtain c cs where
    s: "show_int i = c # cs" and
    h: "is_digit c \<or> (c = CHR ''-'' \<and> (\<exists>d ds. cs = d # ds \<and> is_digit d))" by blast
  have "parse_value (Suc n) (c # cs @ r) = match_number (c # cs @ r)"
  proof (rule parse_value_number)
    from h is_digit_cases [of c]
    show "c \<notin> {CHR 0x22, CHR ''{'', CHR ''['', CHR ''n'', CHR ''t'', CHR ''f'', CHR ''N'', CHR ''I''}"
      by auto
    show "\<not> starts_with ''-Infinity'' (c # cs @ r)"
    proof (cases "is_digit c")
      case True
      from is_digit_cases [OF this] show ?thesis by (simp add: starts_with_simps)
    next
      case False
      with h obtain d ds where cs: "cs = d # ds" and d: "is_digit d" by blast
      from is_digit_cases [OF d] cs show ?thesis by (simp add: starts_with_simps)
    qed
  qed
  with s have "parse_value (Suc n) (show_int i @ r) = match_number (show_int i @ r)" by simp
  with match_number_show_int [OF assms] show ?thesis by simp
qed

lemma parse_value_str:
  "parse_value (Suc n) (encode_str s @ r) = Inr (JStr s, r)"
  using scanstring_escaped [of s r]
  by (simp add: encode_str_def starts_with_simps del: scanstring.simps)

lemma encode_head: "\<exists>c cs. encode v = c # cs \<and> \<not> is_json_ws c"
proof (cases v)
  case JNull
  then show ?thesis by (simp add: is_json_ws_def)
next
  case (JBool b)
  then show ?thesis by (cases b) (simp_all add: is_json_ws_def)
next
  case (JInt i)
  from show_int_head [of i] obtain c cs where
    s: "show_int i = c # cs" and
    h: "is_digit c \<or> (c = CHR ''-'' \<and> (\<exists>d ds. cs = d # ds \<and> is_digit d))" by blast
  have "\<not> is_json_ws c"
  proof (cases "is_digit c")
    case True
    from is_digit_cases [OF this] show ?thesis by (simp add: is_json_ws_def)
  next
    case False
    with h have "c = CHR ''-''" by blast
    then show ?thesis by (simp add: is_json_ws_def)
  qed
  moreover from s JInt have "encode v = c # cs" by simp
  ultimately show ?thesis by blast
next
  case (JNonFinite x)
  then show ?thesis by (simp add: is_json_ws_def)
next
  case (JStr s)
  then show ?thesis by (simp add: is_json_ws_def encode_str_def)
next
  case (JList xs)
  have "encode (JList xs) = CHR ''['' # (commas (map encode xs) @ '']'')" by simp
  moreover have "\<not> is_json_ws CHR ''[''" by (simp add: is_json_ws_def)
  ultimately show ?thesis using JList by blast
next
  case (JObj kvs)
  have "encode (JObj kvs) = CHR ''{'' # (commas (map encode_item
          (sort_key fst (map (\<lambda>kv. (fst kv, encode (snd kv))) kvs))) @ ''}'')" by simp
  moreover have "\<not> is_json_ws CHR ''{''" by (simp add: is_json_ws_def)
  ultimately show ?thesis using JObj by blast
qed

lemma skip_ws_encode: "skip_ws (encode v @ r) = encode v @ r"
proof -
  from encode_head [of v] obtain c cs where "encode v = c # cs" and "\<not> is_json_ws c" by blast
  then show ?thesis by (simp add: skip_ws_def)
qed

lemma skip_ws_encode_str: "skip_ws (encode_str s @ r) = encode_str s @ r"
  by (simp add: skip_ws_def encode_str_def is_json_ws_def)

lemma skip_ws_punct:
  "c \<in> {CHR '','', CHR '']'', CHR ''}'', CHR '':''} \<Longrightarrow> skip_ws (c # r) = c # r"
  by (auto simp: skip_ws_def is_json_ws_def)

lemma delim_punct: "delim (CHR '','' # r)" "delim (CHR '']'' # r)" "delim (CHR ''}'' # r)" "delim []"
  by (simp_all add: delim_def)

lemma parse_value_null: "parse_value (Suc n) (''null'' @ r) = Inr (JNull, r)"
  by (simp add: starts_with_simps)

lemma parse_value_true: "parse_value (Suc n) (''true'' @ r) = Inr (JBool True, r)"
  by (simp add: starts_with_simps)

lemma parse_value_false: "parse_value (Suc n) (''false'' @ r) = Inr (JBool False, r)"
  by (simp add: starts_with_simps)

lemma commas_Cons:
  "xs \<noteq> [] \<Longrightarrow> commas (x # xs) = x @ CHR '','' # commas xs"
  by (cases xs) simp_all

lemma parse_elements_rt:
  assumes "\<forall>x \<in> set xs. \<forall>n r. fuel_of x \<le> n \<longrightarrow> delim r
            \<longrightarrow> parse_value n (encode x @ r) = Inr (canon x, r)"
    and "xs \<noteq> []" and "sum_list (map (\<lambda>x. Suc (fuel_of x)) xs) \<le> n"
  shows "parse_elements n (commas (map encode xs) @ CHR '']'' # r) = Inr (map canon xs, r)"
  using assms
proof (induction xs arbitrary: n)
  case Nil
  then show ?case by simp
next
  case (Cons x xs)
  from Cons.prems(3) obtain m where n: "n = Suc m" by (cases n) auto
  with Cons.prems(3) have fx: "fuel_of x \<le> m"
    and fxs: "sum_list (map (\<lambda>x. Suc (fuel_of x)) xs) \<le> m" by simp_all
  from Cons.prems(1) have px: "\<And>r. delim r \<Longrightarrow> parse_value m (encode x @ r) = Inr (canon x, r)"
    using fx by simp
  show ?case
  proof (cases "xs = []")
    case True
    have "parse_value m (encode x @ CHR '']'' # r) = Inr (canon x, CHR '']'' # r)"
      by (rule px) (simp add: delim_punct)
    with True n show ?thesis
      by (simp add: skip_ws_punct starts_with_simps)
  next
    case False
    then obtain y ys where xs: "xs = y # ys" by (cases xs) auto
    let ?rest = "commas (map encode xs) @ CHR '']'' # r"
    have c: "commas (map encode (x # xs)) @ CHR '']'' # r = encode x @ CHR '','' # ?rest"
      using False by (simp add: commas_Cons)
    have pv: "parse_value m (encode x @ CHR '','' # ?rest) = Inr (canon x, CHR '','' # ?rest)"
      by (rule px) (simp add: delim_punct)
    have sk: "skip_ws ?rest = ?rest"
    proof -
      have "commas (map encode xs) @ CHR '']'' # r
          = encode y @ (if ys = [] then CHR '']'' # r
                        else CHR '','' # commas (map encode ys) @ CHR '']'' # r)"
        using xs by (cases ys) simp_all
      then show ?thesis by (simp only: skip_ws_encode)
    qed
    from Cons.prems(1) have ih: "\<forall>x \<in> set xs. \<forall>n r. fuel_of x \<le> n \<longrightarrow> delim r
            \<longrightarrow> parse_value n (encode x @ r) = Inr (canon x, r)" by simp
    from Cons.IH [OF ih False fxs]
    have pe: "parse_elements m ?rest = Inr (map canon xs, r)" .
    show ?thesis
      unfolding c n
      by (simp add: pv skip_ws_punct starts_with_simps sk pe del: commas.simps)
  qed
qed


lemma parse_members_rt:
  assumes "\<forall>kv \<in> set ys. \<forall>n r. fuel_of (snd kv) \<le> n \<longrightarrow> delim r
            \<longrightarrow> parse_value n (encode (snd kv) @ r) = Inr (canon (snd kv), r)"
    and "ys \<noteq> []" and "sum_list (map (\<lambda>kv. Suc (fuel_of (snd kv))) ys) \<le> n"
  shows "parse_members n
           (commas (map (\<lambda>kv. encode_str (fst kv) @ CHR '':'' # encode (snd kv)) ys) @ CHR ''}'' # r)
         = Inr (map (\<lambda>kv. (fst kv, canon (snd kv))) ys, r)"
  using assms
proof (induction ys arbitrary: n)
  case Nil
  then show ?case by simp
next
  case (Cons kv ys)
  let ?item = "\<lambda>kv. encode_str (fst kv) @ CHR '':'' # encode (snd kv)"
  from Cons.prems(3) obtain m where n: "n = Suc m" by (cases n) auto
  with Cons.prems(3) have fx: "fuel_of (snd kv) \<le> m"
    and fxs: "sum_list (map (\<lambda>kv. Suc (fuel_of (snd kv))) ys) \<le> m" by simp_all
  from Cons.prems(1) have
    px: "\<And>r. delim r \<Longrightarrow> parse_value m (encode (snd kv) @ r) = Inr (canon (snd kv), r)"
    using fx by simp
  have key: "\<And>t. scanstring (drop (Suc 0) (encode_str (fst kv) @ t)) = Inr (fst kv, t)"
    using scanstring_escaped [of "fst kv"] by (simp add: encode_str_def)
  have q: "\<And>t. starts_with [CHR 0x22] (encode_str (fst kv) @ t)"
    by (simp add: encode_str_def starts_with_simps)
  show ?case
  proof (cases "ys = []")
    case True
    have pv: "parse_value m (encode (snd kv) @ CHR ''}'' # r) = Inr (canon (snd kv), CHR ''}'' # r)"
      by (rule px) (simp add: delim_punct)
    have "parse_members (Suc m) (encode_str (fst kv) @ CHR '':'' # encode (snd kv) @ CHR ''}'' # r)
        = Inr ([(fst kv, canon (snd kv))], r)"
      by (simp add: q key skip_ws_punct starts_with_simps skip_ws_encode pv
          del: scanstring.simps drop_append)
    with True n show ?thesis by simp
  next
    case False
    then obtain y zs where ys: "ys = y # zs" by (cases ys) auto
    let ?rest = "commas (map ?item ys) @ CHR ''}'' # r"
    have c: "commas (map ?item (kv # ys)) @ CHR ''}'' # r
           = encode_str (fst kv) @ CHR '':'' # encode (snd kv) @ CHR '','' # ?rest"
      using False by (simp add: commas_Cons)
    have pv: "parse_value m (encode (snd kv) @ CHR '','' # ?rest)
            = Inr (canon (snd kv), CHR '','' # ?rest)"
      by (rule px) (simp add: delim_punct)
    have sk: "skip_ws ?rest = ?rest"
    proof -
      have "?rest = encode_str (fst y) @ (CHR '':'' # encode (snd y) @
                (if zs = [] then CHR ''}'' # r
                 else CHR '','' # commas (map ?item zs) @ CHR ''}'' # r))"
        using ys by (cases zs) simp_all
      then show ?thesis by (simp only: skip_ws_encode_str)
    qed
    from Cons.prems(1) have ih: "\<forall>kv \<in> set ys. \<forall>n r. fuel_of (snd kv) \<le> n \<longrightarrow> delim r
            \<longrightarrow> parse_value n (encode (snd kv) @ r) = Inr (canon (snd kv), r)" by simp
    from Cons.IH [OF ih False fxs]
    have pm: "parse_members m ?rest = Inr (map (\<lambda>kv. (fst kv, canon (snd kv))) ys, r)" .
    have "parse_members (Suc m)
            (encode_str (fst kv) @ CHR '':'' # encode (snd kv) @ CHR '','' # ?rest)
        = Inr ((fst kv, canon (snd kv)) # map (\<lambda>kv. (fst kv, canon (snd kv))) ys, r)"
      by (simp add: q key skip_ws_punct starts_with_simps skip_ws_encode pv sk pm
          del: scanstring.simps commas.simps drop_append)
    with c n show ?thesis by simp
  qed
qed


lemma dict_set_fresh: "k \<notin> fst ` set d \<Longrightarrow> dict_set d k v = d @ [(k, v)]"
  by (induction d) auto

lemma dict_of_pairs_aux:
  "distinct (map fst (d @ ps)) \<Longrightarrow>
   foldl (\<lambda>d p. dict_set d (fst p) (snd p)) d ps = d @ ps"
proof (induction ps arbitrary: d)
  case Nil
  then show ?case by simp
next
  case (Cons p ps)
  from Cons.prems have f: "fst p \<notin> fst ` set d" by auto
  from Cons.prems have "distinct (map fst ((d @ [p]) @ ps))" by simp
  from Cons.IH [OF this] dict_set_fresh [OF f, of "snd p"] show ?case by simp
qed

lemma dict_of_pairs_distinct: "distinct (map fst ps) \<Longrightarrow> dict_of_pairs ps = ps"
  using dict_of_pairs_aux [of "[]" ps] by (simp add: dict_of_pairs_def)

lemma encode_head_not_close:
  "\<exists>c cs. encode v = c # cs \<and> c \<noteq> CHR '']''"
proof (cases v)
  case (JInt i)
  from show_int_head [of i] obtain c cs where
    s: "show_int i = c # cs" and
    h: "is_digit c \<or> (c = CHR ''-'' \<and> (\<exists>d ds. cs = d # ds \<and> is_digit d))" by blast
  have "c \<noteq> CHR '']''"
  proof (cases "is_digit c")
    case True
    then show ?thesis by (auto simp: is_digit_def less_eq_char_def)
  next
    case False
    with h have "c = CHR ''-''" by blast
    then show ?thesis by simp
  qed
  moreover from s JInt have "encode v = c # cs" by simp
  ultimately show ?thesis by blast
next
  case (JBool b)
  then show ?thesis by (cases b) simp_all
next
  case (JList xs)
  have "encode (JList xs) = CHR ''['' # (commas (map encode xs) @ '']'')" by simp
  with JList show ?thesis by simp
next
  case (JObj kvs)
  have "encode (JObj kvs) = CHR ''{'' # (commas (map encode_item
          (sort_key fst (map (\<lambda>kv. (fst kv, encode (snd kv))) kvs))) @ ''}'')" by simp
  with JObj show ?thesis by simp
qed (simp_all add: encode_str_def)

lemma parse_value_list:
  assumes "\<forall>x \<in> set xs. \<forall>n r. fuel_of x \<le> n \<longrightarrow> delim r
            \<longrightarrow> parse_value n (encode x @ r) = Inr (canon x, r)"
    and "fuel_of (JList xs) \<le> n"
  shows "parse_value n (encode (JList xs) @ r) = Inr (canon (JList xs), r)"
proof -
  from assms(2) obtain m where n: "n = Suc m"
    and fm: "sum_list (map (\<lambda>x. Suc (fuel_of x)) xs) \<le> m" by (cases n) auto
  show ?thesis
  proof (cases "xs = []")
    case True
    then show ?thesis
      unfolding n by (simp add: starts_with_simps skip_ws_punct)
  next
    case False
    then obtain y ys where xs: "xs = y # ys" by (cases xs) auto
    let ?body = "commas (map encode xs) @ CHR '']'' # r"
    have b: "?body = encode y @ (if ys = [] then CHR '']'' # r
                        else CHR '','' # commas (map encode ys) @ CHR '']'' # r)"
      using xs by (cases ys) simp_all
    have sk: "skip_ws ?body = ?body" by (subst b, subst b) (simp only: skip_ws_encode)
    from encode_head_not_close [of y] obtain c cs where "encode y = c # cs" and "c \<noteq> CHR '']''"
      by blast
    with b have nc: "\<not> starts_with '']'' ?body" by (simp add: starts_with_simps)
    from parse_elements_rt [OF assms(1) False fm, of r]
    have pe: "parse_elements m ?body = Inr (map canon xs, r)" .
    have "parse_value (Suc m) (CHR ''['' # ?body) = Inr (JList (map canon xs), r)"
      by (simp add: starts_with_simps sk nc pe del: commas.simps)
    then show ?thesis unfolding n by simp
  qed
qed


lemma sum_list_insort_key:
  "sum_list (map g (insort_key f x xs)) = g x + sum_list (map g xs)"
  for g :: "'a \<Rightarrow> nat"
  by (induction xs) simp_all

lemma sum_list_sort_key: "sum_list (map g (sort_key f xs)) = sum_list (map g xs)"
  for g :: "'a \<Rightarrow> nat"
  by (induction xs) (simp_all add: sum_list_insort_key)

lemma distinct_keys_insort:
  "distinct (map fst (insort_key fst x xs)) = (fst x \<notin> fst ` set xs \<and> distinct (map fst xs))"
  by (induction xs) (auto simp: set_insort_key)

lemma distinct_keys_sort: "distinct (map fst (sort_key fst xs)) = distinct (map fst xs)"
  by (induction xs) (simp_all add: distinct_keys_insort)

lemma parse_value_obj:
  assumes "\<forall>kv \<in> set kvs. \<forall>n r. fuel_of (snd kv) \<le> n \<longrightarrow> delim r
            \<longrightarrow> parse_value n (encode (snd kv) @ r) = Inr (canon (snd kv), r)"
    and "distinct (map fst kvs)" and "fuel_of (JObj kvs) \<le> n"
  shows "parse_value n (encode (JObj kvs) @ r) = Inr (canon (JObj kvs), r)"
proof -
  let ?ys = "sort_key fst kvs"
  let ?item = "\<lambda>kv. encode_str (fst kv) @ CHR '':'' # encode (snd kv)"
  from assms(3) obtain m where n: "n = Suc m"
    and "sum_list (map (\<lambda>kv. Suc (fuel_of (snd kv))) kvs) \<le> m" by (cases n) auto
  then have fm: "sum_list (map (\<lambda>kv. Suc (fuel_of (snd kv))) ?ys) \<le> m"
    by (simp add: sum_list_sort_key)
  from assms(1) have ih: "\<forall>kv \<in> set ?ys. \<forall>n r. fuel_of (snd kv) \<le> n \<longrightarrow> delim r
            \<longrightarrow> parse_value n (encode (snd kv) @ r) = Inr (canon (snd kv), r)" by simp
  show ?thesis
  proof (cases "kvs = []")
    case True
    then show ?thesis
      unfolding n by (simp add: starts_with_simps skip_ws_punct dict_of_pairs_def)
  next
    case False
    then have ne: "?ys \<noteq> []" by (metis length_0_conv length_sort)
    then obtain y zs where ys: "?ys = y # zs" by (cases ?ys) auto
    let ?body = "commas (map ?item ?ys) @ CHR ''}'' # r"
    have b: "?body = encode_str (fst y) @ (CHR '':'' # encode (snd y) @
                (if zs = [] then CHR ''}'' # r
                 else CHR '','' # commas (map ?item zs) @ CHR ''}'' # r))"
      unfolding ys by (cases zs) simp_all
    have sk: "skip_ws ?body = ?body" by (subst b, subst b) (simp only: skip_ws_encode_str)
    have nc: "\<not> starts_with ''}'' ?body"
      by (subst b) (simp add: encode_str_def starts_with_simps)
    from parse_members_rt [OF ih ne fm, of r]
    have pm: "parse_members m ?body = Inr (map (\<lambda>kv. (fst kv, canon (snd kv))) ?ys, r)" .
    have "distinct (map fst (map (\<lambda>kv. (fst kv, canon (snd kv))) ?ys))"
      using assms(2) by (simp add: comp_def distinct_keys_sort)
    from dict_of_pairs_distinct [OF this]
    have dp: "dict_of_pairs (map (\<lambda>kv. (fst kv, canon (snd kv))) ?ys)
            = map (\<lambda>kv. (fst kv, canon (snd kv))) ?ys" .
    have "parse_value (Suc m) (CHR ''{'' # ?body)
        = Inr (JObj (map (\<lambda>kv. (fst kv, canon (snd kv))) ?ys), r)"
      by (simp add: starts_with_simps sk nc pm dp del: commas.simps)
    then show ?thesis
      unfolding n by (simp only: encode_obj_sorted canon_obj_sorted) simp
  qed
qed

lemma parse_value_rt:
  "wf_json v \<Longrightarrow> fuel_of v \<le> n \<Longrightarrow> delim r \<Longrightarrow>
   parse_value n (encode v @ r) = Inr (canon v, r)"
proof (induction v arbitrary: n r)
  case JNull
  then obtain m where "n = Suc m" by (cases n) auto
  then show ?case using parse_value_null [of m r] by simp
next
  case (JBool b)
  then obtain m where "n = Suc m" by (cases n) auto
  then show ?case
    using parse_value_true [of m r] parse_value_false [of m r] by (cases b) simp_all
next
  case (JInt i)
  then obtain m where "n = Suc m" by (cases n) auto
  with JInt show ?case using parse_value_int [of r m i] by simp
next
  case (JNonFinite x)
  then obtain m where "n = Suc m" by (cases n) auto
  then show ?case using parse_value_null [of m r] by simp
next
  case (JStr s)
  then obtain m where "n = Suc m" by (cases n) auto
  then show ?case using parse_value_str [of m s r] by simp
next
  case (JList xs)
  have "\<forall>x \<in> set xs. \<forall>n r. fuel_of x \<le> n \<longrightarrow> delim r
            \<longrightarrow> parse_value n (encode x @ r) = Inr (canon x, r)"
    using JList.IH JList.prems(1) by (auto simp: list_all_iff)
  from parse_value_list [OF this JList.prems(2)] show ?case .
next
  case (JObj kvs)
  have "\<forall>kv \<in> set kvs. \<forall>n r. fuel_of (snd kv) \<le> n \<longrightarrow> delim r
            \<longrightarrow> parse_value n (encode (snd kv) @ r) = Inr (canon (snd kv), r)"
  proof (intro ballI allI impI)
    fix kv n r
    assume kv: "kv \<in> set kvs" and f: "fuel_of (snd kv) \<le> n" and d: "delim r"
    from JObj.prems(1) kv have "wf_json (snd kv)" by (auto simp: list_all_iff)
    moreover have "snd kv \<in> Basic_BNFs.snds kv" by (cases kv) simp
    ultimately show "parse_value n (encode (snd kv) @ r) = Inr (canon (snd kv), r)"
      using JObj.IH [OF kv _ _ f d] by blast
  qed
  moreover from JObj.prems(1) have "distinct (map fst kvs)" by simp
  ultimately show ?case using JObj.prems(2) by (rule parse_value_obj)
qed

lemma encode_head_kind:
  "\<exists>c cs. encode v = c # cs
     \<and> (is_digit c \<or> c \<in> {CHR ''-'', CHR 0x22, CHR ''['', CHR ''{'', CHR ''n'', CHR ''t'', CHR ''f''})"
proof (cases v)
  case (JInt i)
  from show_int_head [of i] JInt show ?thesis by auto
next
  case (JBool b)
  then show ?thesis by (cases b) simp_all
next
  case (JList xs)
  have "encode (JList xs) = CHR ''['' # (commas (map encode xs) @ '']'')" by simp
  with JList show ?thesis by simp
next
  case (JObj kvs)
  have "encode (JObj kvs) = CHR ''{'' # (commas (map encode_item
          (sort_key fst (map (\<lambda>kv. (fst kv, encode (snd kv))) kvs))) @ ''}'')" by simp
  with JObj show ?thesis by simp
qed (simp_all add: encode_str_def)

lemma encode_no_bom: "\<not> starts_with [CHR 0xEF, CHR 0xBB, CHR 0xBF] (encode v)"
proof -
  from encode_head_kind [of v] obtain c cs where e: "encode v = c # cs"
    and k: "is_digit c \<or> c \<in> {CHR ''-'', CHR 0x22, CHR ''['', CHR ''{'', CHR ''n'', CHR ''t'', CHR ''f''}"
    by blast
  have "c \<noteq> CHR 0xEF"
  proof (cases "is_digit c")
    case True
    then show ?thesis by (auto simp: is_digit_def less_eq_char_def)
  next
    case False
    with k show ?thesis by auto
  qed
  with e show ?thesis by (simp add: starts_with_simps)
qed

lemma commas_fuel:
  assumes "\<forall>x \<in> set xs. g x \<le> length (h x)"
  shows "sum_list (map (\<lambda>x. Suc (g x)) xs) \<le> Suc (length (commas (map h xs)))"
  using assms
proof (induction xs)
  case Nil
  then show ?case by simp
next
  case (Cons x xs)
  then have gx: "g x \<le> length (h x)"
    and ih: "sum_list (map (\<lambda>x. Suc (g x)) xs) \<le> Suc (length (commas (map h xs)))" by simp_all
  show ?case
  proof (cases "xs = []")
    case True
    with gx show ?thesis by simp
  next
    case False
    then have "commas (map h (x # xs)) = h x @ CHR '','' # commas (map h xs)"
      by (simp add: commas_Cons)
    with gx ih show ?thesis by simp
  qed
qed

lemma fuel_le_length: "fuel_of v \<le> length (encode v)"
proof (induction v)
  case (JInt i)
  from show_int_head [of i] obtain c cs where "show_int i = c # cs" by blast
  then show ?case by simp
next
  case (JBool b)
  then show ?case by (cases b) simp_all
next
  case (JList xs)
  then have "\<forall>x \<in> set xs. fuel_of x \<le> length (encode x)" by simp
  from commas_fuel [OF this] show ?case by simp
next
  case (JObj kvs)
  let ?ys = "sort_key fst kvs"
  let ?item = "\<lambda>kv. encode_str (fst kv) @ CHR '':'' # encode (snd kv)"
  have "\<forall>kv \<in> set ?ys. fuel_of (snd kv) \<le> length (?item kv)"
  proof
    fix kv assume "kv \<in> set ?ys"
    then have kv: "kv \<in> set kvs" by simp
    have "snd kv \<in> Basic_BNFs.snds kv" by (cases kv) simp
    from JObj [OF kv this] show "fuel_of (snd kv) \<le> length (?item kv)" by simp
  qed
  from commas_fuel [OF this]
  have "sum_list (map (\<lambda>kv. Suc (fuel_of (snd kv))) ?ys) \<le> Suc (length (commas (map ?item ?ys)))" .
  then have "sum_list (map (\<lambda>kv. Suc (fuel_of (snd kv))) kvs) \<le> Suc (length (commas (map ?item ?ys)))"
    by (simp add: sum_list_sort_key)
  then show ?case by (simp only: encode_obj_sorted fuel_of.simps) simp
qed (simp_all add: encode_str_def)

lemma loads_encode: "wf_json v \<Longrightarrow> loads (encode v) = Inr (canon v)"
proof -
  assume wf: "wf_json v"
  have f: "fuel_of v \<le> Suc (length (encode v))" using fuel_le_length [of v] by simp
  from parse_value_rt [OF wf f delim_punct(4)]
  have "parse_value (Suc (length (encode v))) (encode v) = Inr (canon v, [])" by simp
  moreover have "skip_ws (encode v) = encode v" using skip_ws_encode [of v "[]"] by simp
  ultimately show ?thesis
    by (simp add: loads_def encode_no_bom skip_ws_def del: parse_value.simps)
qed

lemma canon_sorted:
  "finite_only v \<Longrightarrow> keys_sorted v \<Longrightarrow> canon v = v"
proof (induction v)
  case (JList xs)
  then have "map canon xs = xs" by (simp add: list_all_iff map_idI)
  then show ?case by simp
next
  case (JObj kvs)
  have "map (\<lambda>kv. (fst kv, canon (snd kv))) kvs = kvs"
  proof (rule map_idI)
    fix kv assume kv: "kv \<in> set kvs"
    have s: "snd kv \<in> Basic_BNFs.snds kv" by (cases kv) simp
    from JObj.prems kv have "finite_only (snd kv)" and "keys_sorted (snd kv)"
      by (auto simp: list_all_iff)
    from JObj.IH [OF kv s this] show "(fst kv, canon (snd kv)) = kv" by simp
  qed
  moreover from JObj.prems(2) have "sort_key fst kvs = kvs"
    by (simp add: sort_key_id_if_sorted)
  ultimately show ?case by simp
qed simp_all

lemma encode_nan_is_null: "encode (JNonFinite NaN) = encode JNull"
  by simp

subsection \<open>The lines of the file\<close>

lemma line_break_len_safe: "safe_char c \<Longrightarrow> line_break_len (c # s) = 0"
  by (auto simp: safe_char_def line_break_len_def)

lemma splitlines_from_safe:
  "list_all safe_char t \<Longrightarrow> splitlines_from cur (t @ rest) = splitlines_from (cur @ t) rest"
  by (induction t arbitrary: cur) (simp_all add: line_break_len_safe)

lemma splitlines_from_line:
  assumes "list_all safe_char l"
  shows "splitlines_from [] (l @ CHR 0x0A # rest) = l # splitlines_from [] rest"
proof -
  have "line_break_len (CHR 0x0A # rest) = 1" by (simp add: line_break_len_def)
  then show ?thesis using splitlines_from_safe [OF assms, of "[]" "CHR 0x0A # rest"] by simp
qed

lemma splitlines_lines:
  "\<forall>l \<in> set ls. list_all safe_char l \<Longrightarrow>
   splitlines (concat (map (\<lambda>l. l @ [CHR 0x0A]) ls)) = ls"
proof (induction ls)
  case Nil
  then show ?case by (simp add: splitlines_def)
next
  case (Cons l ls)
  then have "list_all safe_char l" and ih: "splitlines_from [] (concat (map (\<lambda>l. l @ [CHR 0x0A]) ls)) = ls"
    by (simp_all add: splitlines_def)
  from splitlines_from_line [OF this(1)] ih show ?case by (simp add: splitlines_def)
qed

lemma hex_digit_is_hex: "is_hex (hex_digit k)"
proof -
  have "k mod 16 < length ''0123456789abcdef''" by simp
  from nth_mem [OF this] show ?thesis by (simp only: hex_digit_def is_hex_def)
qed

lemma is_hex_safe: "is_hex c \<Longrightarrow> safe_char c \<and> c \<noteq> CHR 0xC2 \<and> c \<noteq> CHR 0xE2"
  by (auto simp: safe_char_def is_hex_def)

lemma hex_byte_is_hex: "c \<in> set (hex_byte b) \<Longrightarrow> is_hex c"
  by (auto simp: hex_byte_def hex_digit_is_hex)

lemma hexdigest_is_hex: "c \<in> set (hexdigest bs) \<Longrightarrow> is_hex c"
  by (auto simp: hexdigest_def hex_byte_is_hex)

lemma hexdigest_str_ok: "str_ok (hexdigest bs)"
  using hexdigest_is_hex [of _ bs] is_hex_safe by (auto simp: str_ok_def list_all_iff)

lemma safe_punct:
  "safe_char CHR ''[''" "safe_char CHR '']''" "safe_char CHR ''{''" "safe_char CHR ''}''"
  "safe_char CHR '',''" "safe_char CHR '':''" "safe_char CHR 0x22" "safe_char CHR 0x5C"
  "safe_char CHR ''-''" "safe_char CHR ''u''" "safe_char CHR ''0''" "safe_char CHR ''b''"
  "safe_char CHR ''f''" "safe_char CHR ''n''" "safe_char CHR ''r''" "safe_char CHR ''t''"
  "safe_char CHR ''l''" "safe_char CHR ''a''" "safe_char CHR ''s''" "safe_char CHR ''e''"
  by (simp_all add: safe_char_def)

lemma escape_char_safe:
  "c \<noteq> CHR 0xC2 \<Longrightarrow> c \<noteq> CHR 0xE2 \<Longrightarrow> list_all safe_char (escape_char c)"
proof -
  assume a: "c \<noteq> CHR 0xC2" "c \<noteq> CHR 0xE2"
  have h: "list_all safe_char (hex_byte (of_char c))"
    using hex_byte_is_hex is_hex_safe by (auto simp: list_all_iff)
  show ?thesis
  proof (cases "(of_char c :: nat) < 0x20")
    case True
    with h show ?thesis by (simp add: escape_char_def safe_punct)
  next
    case False
    then have "c \<notin> {CHR 0x0A, CHR 0x0B, CHR 0x0C, CHR 0x0D, CHR 0x1C, CHR 0x1D, CHR 0x1E}"
      by auto
    with a have "safe_char c" by (simp add: safe_char_def)
    with False show ?thesis by (simp add: escape_char_def safe_punct)
  qed
qed

lemma encode_str_safe: "str_ok s \<Longrightarrow> list_all safe_char (encode_str s)"
proof -
  assume "str_ok s"
  then have "list_all safe_char (concat (map escape_char s))"
    by (induction s) (simp_all add: str_ok_def escape_char_safe)
  then show ?thesis by (simp add: encode_str_def safe_punct)
qed

lemma show_int_safe: "list_all safe_char (show_int i)"
proof -
  have d: "\<And>c. is_digit c \<Longrightarrow> safe_char c"
    by (auto simp: is_digit_def safe_char_def less_eq_char_def)
  have "\<And>n. list_all safe_char (show_nat n)"
    using show_nat_digits d by (metis (mono_tags, lifting) list_all_iff)
  then show ?thesis by (simp add: show_int_def safe_punct)
qed

lemma commas_safe:
  "\<forall>x \<in> set xs. list_all safe_char x \<Longrightarrow> list_all safe_char (commas xs)"
proof (induction xs)
  case Nil
  then show ?case by simp
next
  case (Cons x xs)
  then show ?case by (cases xs) (simp_all add: safe_punct)
qed

lemma encode_safe: "breakfree v \<Longrightarrow> list_all safe_char (encode v)"
proof (induction v)
  case (JBool b)
  then show ?case by (cases b) (simp_all add: safe_punct)
next
  case (JInt i)
  then show ?case by (simp add: show_int_safe)
next
  case (JStr s)
  then show ?case by (simp add: encode_str_safe)
next
  case (JList xs)
  then have "\<forall>x \<in> set (map encode xs). list_all safe_char x" by (auto simp: list_all_iff)
  from commas_safe [OF this] show ?case by (simp add: safe_punct)
next
  case (JObj kvs)
  let ?item = "\<lambda>kv. encode_str (fst kv) @ CHR '':'' # encode (snd kv)"
  have "\<forall>x \<in> set (map ?item (sort_key fst kvs)). list_all safe_char x"
  proof
    fix x assume "x \<in> set (map ?item (sort_key fst kvs))"
    then obtain kv where kv: "kv \<in> set kvs" and x: "x = ?item kv" by auto
    have s: "snd kv \<in> Basic_BNFs.snds kv" by (cases kv) simp
    from JObj.prems kv have k: "str_ok (fst kv)" and b: "breakfree (snd kv)"
      by (auto simp: list_all_iff)
    from JObj.IH [OF kv s b] encode_str_safe [OF k] x show "list_all safe_char x"
      by (simp add: safe_punct)
  qed
  from commas_safe [OF this] show ?case
    by (simp only: encode_obj_sorted) (simp add: safe_punct)
qed (simp_all add: safe_punct)

lemma sort_key_sorted_id: "sort_key fst (sort_key fst xs) = sort_key fst xs"
  for xs :: "(string \<times> 'a) list"
  by (rule sort_key_id_if_sorted) (rule sorted_sort_key)

lemma encode_canon: "encode (canon v) = encode v"
proof (induction v)
  case (JList xs)
  have m: "map (encode \<circ> canon) xs = map encode xs"
    using JList by (simp add: map_eq_conv)
  show ?case by (simp add: m)
next
  case (JObj kvs)
  let ?ci = "\<lambda>kv. (fst kv, canon (snd kv))"
  let ?item = "\<lambda>kv. encode_str (fst kv) @ CHR '':'' # encode (snd kv)"
  have "map ?item (map ?ci (sort_key fst kvs)) = map ?item (sort_key fst kvs)"
  proof (simp, intro ballI)
    fix kv assume "kv \<in> set kvs"
    moreover have "snd kv \<in> Basic_BNFs.snds kv" by (cases kv) simp
    ultimately show "encode (canon (snd kv)) = encode (snd kv)" by (rule JObj.IH)
  qed
  then have "map ?item (sort_key fst (sort_key fst (map ?ci kvs))) = map ?item (sort_key fst kvs)"
    by (simp only: sort_key_sorted_id sort_key_map_item)
  then show ?case
    by (simp only: canon.simps encode_obj_sorted)
qed simp_all

lemma encodable_canon: "encodable (canon v) = encodable v"
proof (induction v)
  case (JList xs)
  then show ?case by (simp add: list_all_iff)
next
  case (JObj kvs)
  have "\<And>kv. kv \<in> set kvs \<Longrightarrow> encodable (canon (snd kv)) = encodable (snd kv)"
  proof -
    fix kv assume "kv \<in> set kvs"
    moreover have "snd kv \<in> Basic_BNFs.snds kv" by (cases kv) simp
    ultimately show "encodable (canon (snd kv)) = encodable (snd kv)" by (rule JObj.IH)
  qed
  then show ?case by (simp add: list_all_iff)
qed simp_all

lemma map_of_sort_key:
  "distinct (map fst xs) \<Longrightarrow> map_of (sort_key fst xs) = map_of xs"
  by (subst map_of_inject_set) (simp_all add: distinct_keys_sort)

lemma model_dump_keys:
  "map fst (model_dump ev) = [''run_id'', ''step'', ''status'', ''ts_iso'', ''ts_ns'', ''input_digest'',
     ''output_digest'', ''artifact_paths'', ''details'', ''prev_event_hash'', ''event_hash'']"
  by (simp add: model_dump_def)

lemma model_dump_distinct: "distinct (map fst (model_dump ev))"
  by (simp only: model_dump_keys) simp

lemma parsed_event_map_of:
  "map_of (parsed_event ev) = map_of (map (\<lambda>kv. (fst kv, canon (snd kv))) (model_dump ev))"
  unfolding parsed_event_def
  by (rule map_of_sort_key) (simp add: comp_def model_dump_distinct)

lemma parsed_event_fields:
  "dict_get_default (parsed_event ev) ''prev_event_hash'' (JStr []) = JStr (prev_event_hash ev)"
  "dict_get_default (parsed_event ev) ''event_hash'' JNull = JStr (event_hash ev)"
  "dict_get (parsed_event ev) ''run_id'' = Some (JStr (run_id ev))"
  by (simp_all add: dict_get_default_def dict_get_def parsed_event_map_of model_dump_def)

lemma canon_model_dump: "canon (JObj (model_dump ev)) = JObj (parsed_event ev)"
  by (simp add: parsed_event_def)

lemma dict_without_parsed:
  "JObj (dict_without k (parsed_event ev)) = canon (JObj (dict_without k (model_dump ev)))"
proof -
  let ?ci = "\<lambda>kv. (fst kv, canon (snd kv))"
  have "filter (\<lambda>kv. fst kv \<noteq> k) (map ?ci (model_dump ev))
      = map ?ci (filter (\<lambda>kv. fst kv \<noteq> k) (model_dump ev))"
    by (simp add: filter_map comp_def)
  then show ?thesis
    by (simp add: dict_without_def parsed_event_def filter_sort)
qed

lemma event_payload_encode:
  "encode (JObj (dict_without k (parsed_event ev)))
   = encode (JObj (dict_without k (model_dump ev)))"
  by (simp only: dict_without_parsed encode_canon)

lemma wf_model_dump: "wf_json (JObj (details ev)) \<Longrightarrow> wf_json (JObj (model_dump ev))"
proof -
  assume w: "wf_json (JObj (details ev))"
  have "list_all wf_json (map JStr (artifact_paths ev))" by (simp add: list_all_iff)
  with w have "list_all wf_json (map snd (model_dump ev))"
    by (simp add: model_dump_def json_opt_str_def split: option.splits)
  with model_dump_distinct [of ev] show ?thesis by simp
qed

lemma loads_event_line:
  "wf_json (JObj (details ev)) \<Longrightarrow> loads (event_line ev) = Inr (JObj (parsed_event ev))"
  using loads_encode [OF wf_model_dump, of ev]
  by (simp only: event_line_def canon_model_dump)

lemma parsed_event_encodable:
  "encodable (JObj (model_dump ev)) \<Longrightarrow> encodable (JObj (parsed_event ev))"
  using encodable_canon [of "JObj (model_dump ev)"] by (simp only: canon_model_dump)

lemma event_line_nonblank: "\<not> is_blank (event_line ev)"
proof -
  have "event_line ev = CHR ''{'' # (commas (map encode_item (sort_key fst
          (map (\<lambda>kv. (fst kv, encode (snd kv))) (model_dump ev)))) @ ''}'')"
    by (simp add: event_line_def)
  then show ?thesis by (simp add: whitespace_len_def)
qed

lemma event_line_safe:
  "breakfree (JObj (model_dump ev)) \<Longrightarrow> list_all safe_char (event_line ev)"
  unfolding event_line_def by (rule encode_safe)

lemma consistent_parsed:
  assumes "event_hash ev
         = hexdigest (prev_event_hash ev
                      @ encode (JObj (dict_without ''event_hash'' (model_dump ev))))"
  shows "consistent (JStr (prev_event_hash ev)) (parsed_event ev)"
  unfolding consistent_def stored_prev_def stored_hash_def
  by (simp only: parsed_event_fields event_payload_encode json.case assms [symmetric])

lemma stored_hash_parsed: "stored_hash (parsed_event ev) = JStr (event_hash ev)"
  by (simp add: stored_hash_def parsed_event_fields)

lemma log_event_fields:
  assumes "log_event e w r stp sts dtl ind outd ap = (Inr ev, w')"
  shows "run_id ev = r \<and> step ev = stp \<and> status ev = sts \<and> ts_iso ev = clock_iso e
       \<and> ts_ns ev = clock_ns e \<and> input_digest ev = ind \<and> output_digest ev = outd
       \<and> artifact_paths ev = (case ap of None \<Rightarrow> [] | Some ps \<Rightarrow> ps) \<and> details ev = dtl
       \<and> (sts = ''ok'' \<or> sts = ''error'')"
proof -
  from log_event_ok [OF assms] obtain prev where
    m: "make_event e r stp sts dtl ind outd (case ap of None \<Rightarrow> [] | Some ps \<Rightarrow> ps) prev
          (event_hash ev) = Inr ev"
    by blast
  then have ok: "sts = ''ok'' \<or> sts = ''error''"
    unfolding make_event_def by (simp split: if_splits)
  from m have "ev = \<lparr>run_id = r, step = stp, status = sts, ts_iso = clock_iso e, ts_ns = clock_ns e,
                input_digest = ind, output_digest = outd,
                artifact_paths = (case ap of None \<Rightarrow> [] | Some ps \<Rightarrow> ps),
                details = dtl, prev_event_hash = prev, event_hash = event_hash ev\<rparr>"
    unfolding make_event_def by (simp split: if_splits)
  then have "run_id ev = r" "step ev = stp" "status ev = sts" "ts_iso ev = clock_iso e"
    "ts_ns ev = clock_ns e" "input_digest ev = ind" "output_digest ev = outd"
    "artifact_paths ev = (case ap of None \<Rightarrow> [] | Some ps \<Rightarrow> ps)" "details ev = dtl"
    by (metis AuditEvent.select_convs(1), metis AuditEvent.select_convs(2),
        metis AuditEvent.select_convs(3), metis AuditEvent.select_convs(4),
        metis AuditEvent.select_convs(5), metis AuditEvent.select_convs(6),
        metis AuditEvent.select_convs(7), metis AuditEvent.select_convs(8),
        metis AuditEvent.select_convs(9))
  with ok show ?thesis by simp
qed

lemma log_event_line:
  assumes "log_event e w r stp sts dtl ind outd ap = (Inr ev, w')"
  shows "encodable (JObj (model_dump ev))
       \<and> file_text w' r = file_text w r @ event_line ev @ [CHR 0x0A]
       \<and> audit_files w' r \<noteq> None"
proof -
  from log_event_ok [OF assms] obtain ln where
    d: "dumps (JObj (model_dump ev)) = Inr ln" and
    f: "audit_files w' = append_line (audit_files w) r ln" by blast
  from d have "encodable (JObj (model_dump ev))" and "ln = event_line ev"
    by (auto simp: dumps_def event_line_def split: if_splits)
  with f show ?thesis
    by (simp add: file_text_def append_line_def split: option.splits)
qed

lemma str_ok_status: "s = ''ok'' \<or> s = ''error'' \<Longrightarrow> str_ok s"
  by (auto simp: str_ok_def)

lemma breakfree_model_dump:
  assumes "str_ok (run_id ev)" "str_ok (step ev)" "str_ok (status ev)" "str_ok (ts_iso ev)"
    "breakfree (json_opt_str (input_digest ev))" "breakfree (json_opt_str (output_digest ev))"
    "list_all str_ok (artifact_paths ev)" "breakfree (JObj (details ev))"
    "str_ok (prev_event_hash ev)" "str_ok (event_hash ev)"
  shows "breakfree (JObj (model_dump ev))"
proof -
  have k: "list_all str_ok [''run_id'', ''step'', ''status'', ''ts_iso'', ''ts_ns'', ''input_digest'',
     ''output_digest'', ''artifact_paths'', ''details'', ''prev_event_hash'', ''event_hash'']"
    by (simp add: str_ok_def)
  have p: "list_all breakfree (map JStr (artifact_paths ev))"
    using assms(7) by (simp add: list_all_iff)
  from assms p have v: "list_all breakfree (map snd (model_dump ev))"
    by (simp add: model_dump_def del: breakfree.simps(3))
  from k have "list_all str_ok (map fst (model_dump ev))" by (simp only: model_dump_keys)
  with v show ?thesis by (simp add: list_all_iff)
qed


lemma do_call_logged:
  assumes "good_call c" and "safe_call c" and "call_run_id c = r"
    and "\<And>e. \<not> db_select_fails e \<Longrightarrow> resolve_prev_hash e w r = Inr p" and "str_ok p"
  shows "\<exists>ev w'. do_call w c = (Inr ev, w')
       \<and> consistent (JStr p) (parsed_event ev)
       \<and> wf_json (JObj (details ev)) \<and> encodable (JObj (model_dump ev))
       \<and> breakfree (JObj (model_dump ev)) \<and> run_id ev = r
       \<and> file_text w' r = file_text w r @ event_line ev @ [CHR 0x0A]
       \<and> audit_files w' r \<noteq> None
       \<and> (\<forall>e. resolve_prev_hash e w' r = Inr (event_hash ev)) \<and> str_ok (event_hash ev)"
proof -
  from good_call_succeeds [OF assms(1), of w] obtain ev w' where d: "do_call w c = (Inr ev, w')"
    by blast
  with assms(3) have le: "log_event (call_env c) w r (call_step c) (call_status c)
     (call_details c) (call_input_digest c) (call_output_digest c) (call_artifact_paths c)
     = (Inr ev, w')" by (simp add: do_call_def)
  from assms(1) have nf: "\<not> db_select_fails (call_env c)" by (simp add: good_call_def)
  from log_event_prev [OF le] assms(4) [OF nf] have pe: "prev_event_hash ev = p" by simp
  from log_event_hash [OF le] have h: "event_hash ev
      = hexdigest (prev_event_hash ev @ encode (JObj (dict_without ''event_hash'' (model_dump ev))))"
    by simp
  from consistent_parsed [OF h] pe have c: "consistent (JStr p) (parsed_event ev)" by simp
  from h have hs: "str_ok (event_hash ev)" by (simp add: hexdigest_str_ok)
  note f = log_event_fields [OF le]
  from f assms(2) have wf: "wf_json (JObj (details ev))" by (simp add: safe_call_def)
  have bf: "breakfree (JObj (model_dump ev))"
  proof (rule breakfree_model_dump)
    from f assms(2,3) show "str_ok (run_id ev)" "str_ok (step ev)" "str_ok (ts_iso ev)"
      "breakfree (json_opt_str (input_digest ev))" "breakfree (json_opt_str (output_digest ev))"
      "list_all str_ok (artifact_paths ev)" "breakfree (JObj (details ev))"
      by (simp_all add: safe_call_def)
    from f show "str_ok (status ev)" using str_ok_status [of "status ev"] by simp
    from pe assms(5) show "str_ok (prev_event_hash ev)" by simp
    from hs show "str_ok (event_hash ev)" .
  qed
  from log_event_cache [OF le] have "\<forall>e. resolve_prev_hash e w' r = Inr (event_hash ev)"
    by (simp add: resolve_prev_hash_def)
  with d c wf bf hs f log_event_line [OF le] show ?thesis by simp
qed

lemma run_calls_logged:
  assumes "\<forall>c \<in> set cs. call_run_id c = r \<and> good_call c \<and> safe_call c"
    and "\<And>e. \<not> db_select_fails e \<Longrightarrow> resolve_prev_hash e w r = Inr p" and "str_ok p"
  shows "\<exists>evs. fst (run_calls w cs) = map Inr evs \<and> length evs = length cs
       \<and> chain_ok (JStr p) (map parsed_event evs)
       \<and> (\<forall>ev \<in> set evs. wf_json (JObj (details ev)) \<and> encodable (JObj (model_dump ev))
             \<and> breakfree (JObj (model_dump ev)) \<and> run_id ev = r)
       \<and> file_text (snd (run_calls w cs)) r
         = file_text w r @ concat (map (\<lambda>ev. event_line ev @ [CHR 0x0A]) evs)
       \<and> (cs \<noteq> [] \<longrightarrow> audit_files (snd (run_calls w cs)) r \<noteq> None)"
  using assms
proof (induction cs arbitrary: w p)
  case Nil
  show ?case by (rule exI [of _ "[]"]) simp
next
  case (Cons c cs)
  from Cons.prems(1) have g: "good_call c" and s: "safe_call c" and r: "call_run_id c = r"
    and rest: "\<forall>c \<in> set cs. call_run_id c = r \<and> good_call c \<and> safe_call c" by simp_all
  from do_call_logged [OF g s r Cons.prems(2,3)] obtain ev w1 where
    d: "do_call w c = (Inr ev, w1)" and
    c: "consistent (JStr p) (parsed_event ev)" and
    e: "wf_json (JObj (details ev)) \<and> encodable (JObj (model_dump ev))
        \<and> breakfree (JObj (model_dump ev)) \<and> run_id ev = r" and
    f: "file_text w1 r = file_text w r @ event_line ev @ [CHR 0x0A]" and
    n: "audit_files w1 r \<noteq> None" and
    rp: "\<forall>e. resolve_prev_hash e w1 r = Inr (event_hash ev)" and
    hs: "str_ok (event_hash ev)"
    by blast
  from rp have rp': "\<And>e. \<not> db_select_fails e \<Longrightarrow> resolve_prev_hash e w1 r = Inr (event_hash ev)"
    by simp
  from Cons.IH [OF rest rp' hs] obtain evs where
    a: "fst (run_calls w1 cs) = map Inr evs" and l: "length evs = length cs" and
    ck: "chain_ok (JStr (event_hash ev)) (map parsed_event evs)" and
    es: "\<forall>ev \<in> set evs. wf_json (JObj (details ev)) \<and> encodable (JObj (model_dump ev))
             \<and> breakfree (JObj (model_dump ev)) \<and> run_id ev = r" and
    ft: "file_text (snd (run_calls w1 cs)) r
         = file_text w1 r @ concat (map (\<lambda>ev. event_line ev @ [CHR 0x0A]) evs)" and
    nn: "cs \<noteq> [] \<longrightarrow> audit_files (snd (run_calls w1 cs)) r \<noteq> None"
    by blast
  obtain xs w2 where rc: "run_calls w1 cs = (xs, w2)" by (cases "run_calls w1 cs")
  have nf: "audit_files w2 r \<noteq> None"
  proof (cases "cs = []")
    case True
    with rc n show ?thesis by simp
  next
    case False
    with nn rc show ?thesis by simp
  qed
  show ?case
  proof (rule exI [of _ "ev # evs"], intro conjI)
    from d rc a show "fst (run_calls w (c # cs)) = map Inr (ev # evs)" by simp
    from l show "length (ev # evs) = length (c # cs)" by simp
    from c ck show "chain_ok (JStr p) (map parsed_event (ev # evs))"
      by (simp add: stored_hash_parsed)
    from e es show "\<forall>ev \<in> set (ev # evs). wf_json (JObj (details ev))
        \<and> encodable (JObj (model_dump ev)) \<and> breakfree (JObj (model_dump ev)) \<and> run_id ev = r"
      by simp
    from d rc ft f show "file_text (snd (run_calls w (c # cs))) r
        = file_text w r @ concat (map (\<lambda>ev. event_line ev @ [CHR 0x0A]) (ev # evs))"
      by simp
    from d rc nf show "c # cs \<noteq> [] \<longrightarrow> audit_files (snd (run_calls w (c # cs))) r \<noteq> None"
      by simp
  qed
qed

lemma verify_chain_lines:
  assumes "\<forall>ev \<in> set evs. wf_json (JObj (details ev)) \<and> encodable (JObj (model_dump ev))
             \<and> breakfree (JObj (model_dump ev)) \<and> run_id ev = r"
    and "chain_ok (JStr []) (map parsed_event evs)" and "evs \<noteq> []"
  shows "verify_chain (concat (map (\<lambda>ev. event_line ev @ [CHR 0x0A]) evs))
       = Inr \<lparr>res_run_id = JStr r, res_events = length evs, res_valid = True,
              res_break_index = None\<rparr>"
proof -
  let ?doc = "concat (map (\<lambda>ev. event_line ev @ [CHR 0x0A]) evs)"
  let ?ls = "map event_line evs"
  let ?nl = "enumerate 0 ?ls"
  have "\<forall>l \<in> set ?ls. list_all safe_char l"
    using assms(1) event_line_safe by auto
  from splitlines_lines [OF this] have sl: "splitlines ?doc = ?ls"
    by (simp add: comp_def)
  have la: "list_all2 (\<lambda>p ev. \<not> is_blank (snd p) \<and> loads (snd p) = Inr (JObj ev))
        ?nl (map parsed_event evs)"
    using assms(1)
    by (simp add: list_all2_conv_all_nth nth_enumerate_eq event_line_nonblank loads_event_line)
  have en: "\<forall>ev \<in> set (map parsed_event evs). encodable (JObj ev)"
    using assms(1) parsed_event_encodable by auto
  from verify_loop_chain_ok [OF la en assms(2), of "[]" "[]"]
  have vl: "verify_loop ?nl (JStr []) [] = Inr (map parsed_event evs, - 1)"
    using assms(3) by simp
  from assms(3) obtain ev evs' where e: "evs = ev # evs'" by (cases evs) auto
  from e assms(1) have rid: "dict_get (parsed_event ev) ''run_id'' = Some (JStr r)"
    by (simp add: parsed_event_fields)
  have m: "map parsed_event evs = parsed_event ev # map parsed_event evs'"
    using e by simp
  show ?thesis
    unfolding verify_chain_def sl vl
    by (simp add: m rid) (simp add: e)
qed

subsection \<open>A line separator in a string\<close>

lemma line_separator_call_succeeds:
  "\<not> isl (fst (log_event env0 world0 ''r1'' ''s1'' ''ok''
       [(''note'', JStr [CHR ''a'', CHR 0xE2, CHR 0x80, CHR 0xA8, CHR ''b''])] None None None))"
  by (simp add: env0_def world0_def run_defs Let_def del: encode.simps)

lemma line_separator_text:
  "\<exists>rest. file_text (snd (log_event env0 world0 ''r1'' ''s1'' ''ok''
       [(''note'', JStr [CHR ''a'', CHR 0xE2, CHR 0x80, CHR 0xA8, CHR ''b''])] None None None)) ''r1''
   = CHR ''{'' # CHR 0x22 # ''artifact_paths'' @ CHR 0x22 # '':[],'' @ CHR 0x22 # ''details''
       @ CHR 0x22 # '':{'' @ CHR 0x22 # ''note'' @ CHR 0x22 # '':'' @ CHR 0x22 # ''a''
       @ CHR 0xE2 # CHR 0x80 # CHR 0xA8 # rest"
  by (simp add: env0_def world0_def run_defs Let_def file_text_def encode_item_def encode_str_def
      escape_char_def)


lemma cut_line_loads: "loads cut_line = Inl JSONDecodeError"
  by (simp add: cut_line_def loads_def starts_with_simps skip_ws_def is_json_ws_def)

lemma cut_line_safe: "list_all safe_char cut_line \<and> \<not> is_blank cut_line"
  by (simp add: cut_line_def safe_char_def whitespace_len_def)

lemma splitlines_at_separator:
  assumes "list_all safe_char l"
  shows "splitlines (l @ CHR 0xE2 # CHR 0x80 # CHR 0xA8 # rest) = l # splitlines rest"
proof -
  have "line_break_len (CHR 0xE2 # CHR 0x80 # CHR 0xA8 # rest) = 3"
    by (simp add: line_break_len_def)
  then show ?thesis
    using splitlines_from_safe [OF assms, of "[]" "CHR 0xE2 # CHR 0x80 # CHR 0xA8 # rest"]
    by (simp add: splitlines_def)
qed

lemma verify_chain_cut:
  "verify_chain (cut_line @ CHR 0xE2 # CHR 0x80 # CHR 0xA8 # rest) = Inl JSONDecodeError"
proof -
  from cut_line_safe have s: "list_all safe_char cut_line" and b: "\<not> is_blank cut_line"
    by simp_all
  show ?thesis
    unfolding verify_chain_def splitlines_at_separator [OF s]
    by (simp add: b cut_line_loads)
qed

lemma interleaved_file:
  "file_text (snd (run_calls world0 interleaved)) ''r1''
   = file_text (snd (log_event env0 world0 ''r1'' ''s1'' ''ok''
       [(''note'', JStr [CHR ''a'', CHR 0xE2, CHR 0x80, CHR 0xA8, CHR ''b''])] None None None)) ''r1''"
proof -
  have s: "same_for ''r1'' world0 world0" by (simp add: same_for_def)
  have f: "filter (\<lambda>c. call_run_id c = ''r1'') interleaved = [hd interleaved]"
    by (simp add: interleaved_def)
  from run_calls_same [OF s, of interleaved]
  have "audit_files (snd (run_calls world0 interleaved)) ''r1''
      = audit_files (snd (run_calls world0 [hd interleaved])) ''r1''"
    by (simp only: f same_for_def)
  then show ?thesis
    by (simp add: file_text_def interleaved_def do_call_def split: prod.splits)
qed

subsection \<open>A file that was tampered with\<close>








section \<open>Claims about the ledger\<close>

text \<open>
  C1 (chain linkage). A single writer makes N calls of \<open>log_event\<close> for one run, all
  successful, starting with no cache entry and no row for that run. Then the first event
  returned has the empty string as \<open>prev_event_hash\<close>, and every later event has the
  \<open>event_hash\<close> of the event before it.
\<close>

theorem chain_linkage:
  assumes "\<forall>c \<in> set cs. call_run_id c = r"
    and "last_hash_by_run w r = None"
    and "\<forall>x \<in> set (audit_table w). row_run_id x \<noteq> r"
    and "fst (run_calls w cs) = map Inr evs"
    and "i < length evs"
  shows "prev_event_hash (evs ! i) = (if i = 0 then [] else event_hash (evs ! (i - 1)))"
proof -
  have "linked [] evs"
  proof (cases cs)
    case Nil
    with assms(4) show ?thesis by simp
  next
    case (Cons c cs')
    obtain x w1 where d: "do_call w c = (x, w1)" by (cases "do_call w c")
    obtain xs w2 where rc: "run_calls w1 cs' = (xs, w2)" by (cases "run_calls w1 cs'")
    from assms(4) Cons d rc obtain ev evs' where
      evs: "evs = ev # evs'" and x: "x = Inr ev" and xs: "xs = map Inr evs'"
      by (cases evs) auto
    from assms(1) Cons have r: "call_run_id c = r" by simp
    from d x r have le: "log_event (call_env c) w r (call_step c) (call_status c)
       (call_details c) (call_input_digest c) (call_output_digest c) (call_artifact_paths c) = (Inr ev, w1)"
      by (simp add: do_call_def)
    from resolve_cold_no_rows [OF assms(2,3) log_event_prev [OF le]]
    have p: "prev_event_hash ev = []" .
    from log_event_cache [OF le] have c1: "last_hash_by_run w1 r = Some (event_hash ev)" .
    from assms(1) Cons have all: "\<forall>c \<in> set cs'. call_run_id c = r" by simp
    from rc xs have "fst (run_calls w1 cs') = map Inr evs'" by simp
    from run_calls_warm [OF all c1 this] p evs show ?thesis by simp
  qed
  from linked_nth [OF this assms(5)] show ?thesis .
qed

theorem chain_linkage_witness:
  "prev_event_hash (oks (fst (run_calls world0 scenario)) ! 0) = []
   \<and> prev_event_hash (oks (fst (run_calls world0 scenario)) ! 1)
     = event_hash (oks (fst (run_calls world0 scenario)) ! 0)
   \<and> prev_event_hash (oks (fst (run_calls world0 scenario)) ! 2)
     = event_hash (oks (fst (run_calls world0 scenario)) ! 1)"
proof -
  let ?evs = "oks (fst (run_calls world0 scenario))"
  have a: "\<forall>c \<in> set scenario. call_run_id c = ''r1''" by (simp add: scenario_def)
  have b: "last_hash_by_run world0 ''r1'' = None" by (simp add: world0_def)
  have c: "\<forall>x \<in> set (audit_table world0). row_run_id x \<noteq> ''r1''" by (simp add: world0_def)
  note s = good_calls_succeed [OF scenario_good, of world0]
  have "length ?evs = length scenario"
    using oks_length [OF s] by (simp add: run_calls_length)
  then have n: "length ?evs = 3" by (simp add: scenario_def)
  from n have i0: "0 < length ?evs" and i1: "1 < length ?evs" and i2: "2 < length ?evs"
    by simp_all
  from chain_linkage [OF a b c s i0] chain_linkage [OF a b c s i1]
       chain_linkage [OF a b c s i2]
  show ?thesis by simp
qed

text \<open>
  C2 (what is hashed). The \<open>event_hash\<close> of a returned event is the hex digest of the
  resolved previous hash followed by the sorted-key encoding of all fields of the event but
  \<open>event_hash\<close> itself; \<open>prev_event_hash\<close>, which is the resolved previous hash, is among
  the fields encoded. Being a HOL function, \<open>chain_next\<close> depends on its two arguments
  only.
\<close>

theorem event_hash_is_digest:
  assumes "log_event e w r stp sts dtl ind outd ap = (Inr ev, w')"
  shows "resolve_prev_hash e w r = Inr (prev_event_hash ev)
       \<and> event_hash ev
          = hexdigest (prev_event_hash ev
                       @ encode (JObj (dict_without ''event_hash'' (model_dump ev))))"
  using log_event_hash [OF assms] by simp

theorem event_hash_is_digest_witness:
  "prev_event_hash (projr (fst (log_event env0 world0 ''r1'' ''s1'' ''ok'' [] None None None))) = []
   \<and> event_hash (projr (fst (log_event env0 world0 ''r1'' ''s1'' ''ok'' [] None None None)))
     = hexdigest (encode (JObj (dict_without ''event_hash''
         (model_dump (projr (fst (log_event env0 world0 ''r1'' ''s1'' ''ok'' [] None None None)))))))"
proof -
  let ?c = "Call env0 ''r1'' ''s1'' ''ok'' [] None None None"
  have "good_call ?c" by (simp add: good_call_def env0_def)
  from good_call_succeeds [OF this, of world0] obtain ev w' where
    le: "log_event env0 world0 ''r1'' ''s1'' ''ok'' [] None None None = (Inr ev, w')"
    by (auto simp: do_call_def)
  from event_hash_is_digest [OF le] have
    "resolve_prev_hash env0 world0 ''r1'' = Inr (prev_event_hash ev)" and
    h: "event_hash ev = hexdigest (prev_event_hash ev
          @ encode (JObj (dict_without ''event_hash'' (model_dump ev))))"
    by simp_all
  then have "prev_event_hash ev = []"
    by (simp add: resolve_prev_hash_def get_last_audit_hash_def world0_def env0_def)
  with h le show ?thesis by simp
qed

text \<open>
  C4 (restart recovery). The table holds at least one row of the run, with the keys the
  engine gave (increasing in the order of insertion). A new agent, whose cache is empty,
  logs an event for the run: its \<open>prev_event_hash\<close> is the \<open>event_hash\<close> of the row of
  that run inserted last. The timestamps of the rows play no part.
\<close>

theorem restart_recovery:
  assumes "sorted_wrt (<) (map row_id (audit_table w))"
    and "filter (\<lambda>x. row_run_id x = r) (audit_table w) \<noteq> []"
    and "log_event e (new_agent w) r stp sts dtl ind outd ap = (Inr ev, w')"
  shows "prev_event_hash ev
       = row_event_hash (last (filter (\<lambda>x. row_run_id x = r) (audit_table w)))"
proof -
  from log_event_prev [OF assms(3)]
  have p: "resolve_prev_hash e (new_agent w) r = Inr (prev_event_hash ev)" .
  have nf: "\<not> db_select_fails e"
  proof
    assume "db_select_fails e"
    with p show False
      by (simp add: resolve_prev_hash_def new_agent_def get_last_audit_hash_def)
  qed
  from p nf last_of_run [OF assms(1,2)] show ?thesis
    by (simp add: resolve_prev_hash_def new_agent_def split: if_splits)
qed

theorem restart_recovery_witness:
  "prev_event_hash (projr (fst (log_event env0 (new_agent stored_world) ''r1'' ''s4'' ''ok'' []
      None None None))) = ''cc''"
proof -
  let ?c = "Call env0 ''r1'' ''s4'' ''ok'' [] None None None"
  have "good_call ?c" by (simp add: good_call_def env0_def)
  from good_call_succeeds [OF this, of "new_agent stored_world"] obtain ev w' where
    le: "log_event env0 (new_agent stored_world) ''r1'' ''s4'' ''ok'' [] None None None
         = (Inr ev, w')"
    by (auto simp: do_call_def)
  have a: "sorted_wrt (<) (map row_id (audit_table stored_world))"
    by (simp add: stored_world_def stored_row_def)
  have b: "filter (\<lambda>x. row_run_id x = ''r1'') (audit_table stored_world) \<noteq> []"
    by (simp add: stored_world_def stored_row_def)
  from restart_recovery [OF a b le] have "prev_event_hash ev = ''cc''"
    by (simp add: stored_world_def stored_row_def)
  with le show ?thesis by simp
qed

text \<open>
  C8 (recovery error). With no cache entry for the run, a failing database query makes
  \<open>log_event\<close> raise that error: no event is returned (so none with an empty previous
  hash), and the cache, the table and the files are as they were.
\<close>

theorem recovery_error_propagates:
  assumes "last_hash_by_run w r = None" and "db_select_fails e"
  shows "log_event e w r stp sts dtl ind outd ap = (Inl OperationalError, w)"
  using assms
  by (simp add: log_event_def resolve_prev_hash_def get_last_audit_hash_def)

theorem recovery_error_propagates_witness:
  "log_event (env0\<lparr>db_select_fails := True\<rparr>) world0 ''r1'' ''s1'' ''ok'' [] None None None
   = (Inl OperationalError, world0)"
proof -
  have a: "last_hash_by_run world0 ''r1'' = None" by (simp add: world0_def)
  have b: "db_select_fails (env0\<lparr>db_select_fails := True\<rparr>)" by simp
  from recovery_error_propagates [OF a b] show ?thesis .
qed

text \<open>
  C10 (the cache on failure). When \<open>log_event\<close> raises, whatever the reason, the cache
  and the table are as before the call, so that resolving the previous hash for any run
  afterwards gives what it gave before.
\<close>

theorem cache_unchanged_on_failure:
  assumes "log_event e w r stp sts dtl ind outd ap = (Inl x, w')"
  shows "last_hash_by_run w' = last_hash_by_run w \<and> audit_table w' = audit_table w
       \<and> resolve_prev_hash e2 w' r2 = resolve_prev_hash e2 w r2"
proof -
  from log_event_err [OF assms] have a: "last_hash_by_run w' = last_hash_by_run w"
    and b: "audit_table w' = audit_table w" by simp_all
  show ?thesis unfolding resolve_prev_hash_def a b by simp
qed

theorem cache_unchanged_on_failure_witness:
  "fst (log_event (env0\<lparr>db_insert_fails := True\<rparr>) world0 ''r1'' ''s1'' ''ok'' [] None None None)
     = Inl OperationalError
   \<and> last_hash_by_run
       (snd (log_event (env0\<lparr>db_insert_fails := True\<rparr>) world0 ''r1'' ''s1'' ''ok'' [] None None None))
     = last_hash_by_run world0
   \<and> audit_table
       (snd (log_event (env0\<lparr>db_insert_fails := True\<rparr>) world0 ''r1'' ''s1'' ''ok'' [] None None None))
     = audit_table world0"
proof -
  let ?r = "log_event (env0\<lparr>db_insert_fails := True\<rparr>) world0 ''r1'' ''s1'' ''ok'' [] None None None"
  have f: "fst ?r = Inl OperationalError"
    by (simp add: env0_def world0_def run_defs Let_def del: encode.simps)
  then have "?r = (Inl OperationalError, snd ?r)" by (simp add: prod_eq_iff)
  from cache_unchanged_on_failure [OF this] f show ?thesis by simp
qed

section \<open>Claims about the encoder\<close>



text \<open>
  C7 (a value the encoder refuses), as amended. When the details hold a value that the
  encoder refuses (an integer outside the 64-bit range), \<open>log_event\<close> raises before
  anything is written: the state is unchanged, and the error is the encoder's unless
  resolving the previous hash failed first.
\<close>

theorem encoding_error_aborts:
  assumes "\<not> encodable (JObj dtl)"
  shows "log_event e w r stp sts dtl ind outd ap
       = (case resolve_prev_hash e w r of
            Inl x \<Rightarrow> (Inl x, w)
          | Inr p \<Rightarrow> (Inl JSONEncodeError, w))"
proof -
  have cn: "\<And>p paths. chain_next (JStr p) (JObj (event_dict e r stp sts dtl ind outd paths p))
      = Inl JSONEncodeError"
    using assms by (simp add: chain_next_def dumps_def event_dict_def)
  show ?thesis
    by (simp add: log_event_def Let_def cn split: sum.splits)
qed

theorem encoding_error_aborts_witness:
  "log_event env0 world0 ''r1'' ''s1'' ''ok'' [(''n'', JInt (2 ^ 64))] None None None
   = (Inl JSONEncodeError, world0)"
proof -
  have "\<not> encodable (JObj [(''n'', JInt (2 ^ 64))])" by simp
  from encoding_error_aborts [OF this, of env0 world0 "''r1''" "''s1''" "''ok''" None None None]
  show ?thesis
    by (simp add: resolve_prev_hash_def get_last_audit_hash_def world0_def env0_def)
qed

text \<open>
  C7 as stated fails for its own example: a non-finite float is no error for the encoder,
  which writes it as \<open>null\<close>. The call succeeds, a line is appended to the file and a row
  to the table, and the details are stored with \<open>null\<close> in place of the float.
\<close>

theorem non_finite_accepted_counterexample:
  "\<not> isl (fst (log_event env0 world0 ''r1'' ''s1'' ''ok'' [(''x'', JNonFinite NaN)] None None None))
   \<and> map row_details_json
       (audit_table (snd (log_event env0 world0 ''r1'' ''s1'' ''ok'' [(''x'', JNonFinite NaN)]
          None None None)))
     = [encode (JObj [(''x'', JNull)])]
   \<and> audit_files (snd (log_event env0 world0 ''r1'' ''s1'' ''ok'' [(''x'', JNonFinite NaN)]
          None None None)) ''r1'' \<noteq> None"
  by (simp add: env0_def world0_def run_defs Let_def)

section \<open>Claims about verification\<close>

text \<open>
  C3 (a logged chain verifies). The file that N calls of \<open>log_event\<close> for one run wrote,
  starting with no file, no cache entry and no row of the run, verifies as valid with N
  events, provided that no string of the calls holds a byte 0xC2 or 0xE2, and so no
  line boundary of more than one byte. The empty text verifies as valid with no event.
\<close>

theorem logged_chain_verifies:
  assumes "\<forall>c \<in> set cs. call_run_id c = r \<and> good_call c \<and> safe_call c"
    and "last_hash_by_run w r = None"
    and "\<forall>x \<in> set (audit_table w). row_run_id x \<noteq> r"
    and "audit_files w r = None" and "cs \<noteq> []"
  shows "audit_files (snd (run_calls w cs)) r \<noteq> None
       \<and> verify_chain (file_text (snd (run_calls w cs)) r)
         = Inr \<lparr>res_run_id = JStr r, res_events = length cs, res_valid = True,
                res_break_index = None\<rparr>"
proof -
  have rp: "\<And>e. \<not> db_select_fails e \<Longrightarrow> resolve_prev_hash e w r = Inr []"
  proof -
    fix e :: env assume "\<not> db_select_fails e"
    from resolve_total [OF this, of w r] obtain p where p: "resolve_prev_hash e w r = Inr p"
      by blast
    from resolve_cold_no_rows [OF assms(2,3) p] p show "resolve_prev_hash e w r = Inr []" by simp
  qed
  have "str_ok []" by (simp add: str_ok_def)
  from run_calls_logged [OF assms(1) rp this] obtain evs where
    l: "length evs = length cs" and
    ck: "chain_ok (JStr []) (map parsed_event evs)" and
    es: "\<forall>ev \<in> set evs. wf_json (JObj (details ev)) \<and> encodable (JObj (model_dump ev))
             \<and> breakfree (JObj (model_dump ev)) \<and> run_id ev = r" and
    ft: "file_text (snd (run_calls w cs)) r
         = file_text w r @ concat (map (\<lambda>ev. event_line ev @ [CHR 0x0A]) evs)" and
    nn: "cs \<noteq> [] \<longrightarrow> audit_files (snd (run_calls w cs)) r \<noteq> None"
    by blast
  from l assms(5) have ne: "evs \<noteq> []" by auto
  from assms(4) ft have "file_text (snd (run_calls w cs)) r
      = concat (map (\<lambda>ev. event_line ev @ [CHR 0x0A]) evs)" by (simp add: file_text_def)
  with verify_chain_lines [OF es ck ne] l nn assms(5) show ?thesis by simp
qed

theorem logged_chain_verifies_witness:
  "verify_chain (file_text (snd (run_calls world0 scenario)) ''r1'')
   = Inr \<lparr>res_run_id = JStr ''r1'', res_events = 3, res_valid = True, res_break_index = None\<rparr>"
proof -
  have a: "\<forall>c \<in> set scenario. call_run_id c = ''r1'' \<and> good_call c \<and> safe_call c"
    by (simp add: scenario_def good_call_def safe_call_def env0_def str_ok_def json_opt_str_def)
  have b: "last_hash_by_run world0 ''r1'' = None"
    and c: "\<forall>x \<in> set (audit_table world0). row_run_id x \<noteq> ''r1''"
    and d: "audit_files world0 ''r1'' = None" and e: "scenario \<noteq> []"
    by (simp_all add: world0_def scenario_def)
  from logged_chain_verifies [OF a b c d e] show ?thesis by (simp add: scenario_def)
qed

lemma verify_chain_empty:
  "verify_chain [] = Inr \<lparr>res_run_id = JNull, res_events = 0, res_valid = True,
                            res_break_index = None\<rparr>"
  by (simp add: verify_chain_def splitlines_def)

text \<open>
  C3 without the proviso fails. The encoder copies U+2028 into the line as it is, and
  \<open>splitlines\<close> breaks the line there: one successful call with the details
  \<open>{"note": "a\u2028b"}\<close> leaves a file on which \<open>verify_chain\<close> raises the error of
  \<open>json.loads\<close> instead of returning a result.
\<close>

theorem verify_raises_on_line_separator:
  "\<not> isl (fst (log_event env0 world0 ''r1'' ''s1'' ''ok''
       [(''note'', JStr [CHR ''a'', CHR 0xE2, CHR 0x80, CHR 0xA8, CHR ''b''])] None None None))
   \<and> verify_chain (file_text (snd (log_event env0 world0 ''r1'' ''s1'' ''ok''
       [(''note'', JStr [CHR ''a'', CHR 0xE2, CHR 0x80, CHR 0xA8, CHR ''b''])] None None None)) ''r1'')
     = Inl JSONDecodeError"
proof -
  from line_separator_text obtain rest where
    "file_text (snd (log_event env0 world0 ''r1'' ''s1'' ''ok''
       [(''note'', JStr [CHR ''a'', CHR 0xE2, CHR 0x80, CHR 0xA8, CHR ''b''])] None None None)) ''r1''
     = cut_line @ CHR 0xE2 # CHR 0x80 # CHR 0xA8 # rest"
    by (auto simp: cut_line_def)
  with verify_chain_cut [of rest] line_separator_call_succeeds show ?thesis by simp
qed

text \<open>
  C9 (independence across runs). In any sequence of calls for any runs, failing or not,
  what the calls for run \<open>a\<close> return is what they return when the calls for the other
  runs are left out (clock readings and faults being those of each call), and the file of
  run \<open>a\<close> is the same in both cases.
\<close>

theorem run_independence:
  "results_for a w cs = fst (run_calls w (filter (\<lambda>c. call_run_id c = a) cs))
   \<and> audit_files (snd (run_calls w cs)) a
     = audit_files (snd (run_calls w (filter (\<lambda>c. call_run_id c = a) cs))) a"
proof -
  have "same_for a w w" by (simp add: same_for_def)
  from run_calls_same [OF this, of cs] show ?thesis by (simp add: same_for_def)
qed

text \<open>
  C9 as stated also says that both chains verify as valid. That part fails where C3
  fails: of two interleaved runs, the one that logged U+2028 in a string leaves a file on
  which \<open>verify_chain\<close> raises.
\<close>

theorem interleaved_run_counterexample:
  "list_all good_call interleaved
   \<and> verify_chain (file_text (snd (run_calls world0 interleaved)) ''r1'') = Inl JSONDecodeError"
proof -
  have "list_all good_call interleaved" by (simp add: interleaved_def good_call_def env0_def)
  moreover from line_separator_text obtain rest where
    "file_text (snd (log_event env0 world0 ''r1'' ''s1'' ''ok''
       [(''note'', JStr [CHR ''a'', CHR 0xE2, CHR 0x80, CHR 0xA8, CHR ''b''])] None None None)) ''r1''
     = cut_line @ CHR 0xE2 # CHR 0x80 # CHR 0xA8 # rest"
    by (auto simp: cut_line_def)
  ultimately show ?thesis
    using verify_chain_cut [of rest] by (simp add: interleaved_file)
qed




end
